theory Spec2Isabelle
  imports Main "HOL-Library.Char_ord" "HOL-Library.List_Lexorder" "HOL-Library.Sublist"
begin

section \<open>Strings, paths and lines\<close>

text \<open>
  A \<^typ>\<open>string\<close> is a list of bytes: file contents are taken as the UTF-8 bytes on
  disk, and \<^verbatim>\<open>Buffer.byteLength(line, "utf-8")\<close> is \<^const>\<open>length\<close>. The white space that
  \<^verbatim>\<open>String.prototype.trim\<close> removes is modelled on its single-byte members (TAB, LF, VT,
  FF, CR, SPACE).
\<close>

definition LF :: char where
  "LF = CHR 0x0A"

definition CR :: char where
  "CR = CHR 0x0D"

definition is_ws :: "char \<Rightarrow> bool" where
  "is_ws c = (c = CHR 0x09 \<or> c = CHR 0x0A \<or> c = CHR 0x0B \<or> c = CHR 0x0C \<or> c = CHR 0x0D \<or> c = CHR 0x20)"

text \<open>\<^verbatim>\<open>s.trim()\<close>, and the test \<^verbatim>\<open>if (line.trim())\<close> as its negation \<open>blank\<close>.\<close>

definition ltrim :: "string \<Rightarrow> string" where
  "ltrim s = dropWhile is_ws s"

definition rtrim :: "string \<Rightarrow> string" where
  "rtrim s = rev (dropWhile is_ws (rev s))"

definition js_trim :: "string \<Rightarrow> string" where
  "js_trim s = rtrim (ltrim s)"

definition blank :: "string \<Rightarrow> bool" where
  "blank s = list_all is_ws s"

text \<open>\<^verbatim>\<open>s.split(d)\<close> for a one-character separator: always at least one piece.\<close>

fun split_aux :: "char \<Rightarrow> string \<Rightarrow> string \<Rightarrow> string list" where
  "split_aux d cur [] = [cur]"
| "split_aux d cur (c # cs) =
     (if c = d then cur # split_aux d [] cs else split_aux d (cur @ [c]) cs)"

definition split_on :: "char \<Rightarrow> string \<Rightarrow> string list" where
  "split_on d s = split_aux d [] s"

text \<open>\<^verbatim>\<open>content.trim().split("\n").filter(Boolean)\<close>: the empty string is the only falsy one.\<close>

definition content_lines :: "string \<Rightarrow> string list" where
  "content_lines content = filter (\<lambda>l. l \<noteq> []) (split_on LF (js_trim content))"

text \<open>
  The lines that \<^verbatim>\<open>readline.createInterface({input, crlfDelay: Infinity})\<close> yields for a
  stream holding \<open>data\<close>: a line ends at LF, at CR LF (one ending, because of
  \<^verbatim>\<open>crlfDelay: Infinity\<close>) or at a lone CR; the ending is not part of the line; what
  follows the last ending is a line of its own when it is not empty.
\<close>

fun rl_lines_aux :: "string \<Rightarrow> string \<Rightarrow> string list" where
  "rl_lines_aux cur [] = (if cur = [] then [] else [cur])"
| "rl_lines_aux cur (c # cs) =
    (if c = LF then cur # rl_lines_aux [] cs
     else if c = CR then
       (case cs of
          [] \<Rightarrow> [cur]
        | c' # cs' \<Rightarrow>
            if c' = LF then cur # rl_lines_aux [] cs' else cur # rl_lines_aux [] cs)
     else rl_lines_aux (cur @ [c]) cs)"

definition rl_lines :: "string \<Rightarrow> string list" where
  "rl_lines data = rl_lines_aux [] data"

text \<open>\<^verbatim>\<open>path.join(a, b)\<close> for a directory and a name read from a listing.\<close>

definition join :: "string \<Rightarrow> string \<Rightarrow> string" where
  "join a b = a @ ''/'' @ b"

definition endsWith :: "string \<Rightarrow> string \<Rightarrow> bool" where
  "endsWith s suf = (length suf \<le> length s \<and> drop (length s - length suf) s = suf)"

text \<open>\<^verbatim>\<open>basename(file, ".jsonl")\<close> for a name without a directory part.\<close>

definition basename_jsonl :: "string \<Rightarrow> string" where
  "basename_jsonl file =
     (if endsWith file ''.jsonl'' then take (length file - 6) file else file)"

text \<open>A string or \<^verbatim>\<open>null\<close> in a condition: \<^verbatim>\<open>null\<close> and \<^verbatim>\<open>""\<close> are falsy.\<close>

definition truthy :: "string option \<Rightarrow> bool" where
  "truthy v = (case v of None \<Rightarrow> False | Some s \<Rightarrow> s \<noteq> [])"

section \<open>JSON values and the type tag\<close>

datatype json =
    JNull
  | JBool bool
  | JNum int
  | JStr string
  | JArr "json list"
  | JObj "(string \<times> json) list"

datatype error = SyntaxError | TypeError | IOError

text \<open>
  \<^verbatim>\<open>msg.type\<close>: reading a property of \<^verbatim>\<open>null\<close> throws a TypeError; an object gives its
  own property or \<^verbatim>\<open>undefined\<close> (\<open>None\<close>); every other value gives \<^verbatim>\<open>undefined\<close>.
  An object is the list of its properties, each key once.
\<close>

fun prop_type :: "json \<Rightarrow> error + json option" where
  "prop_type JNull = Inl TypeError"
| "prop_type (JObj kvs) = Inr (map_of kvs ''type'')"
| "prop_type v = Inr None"

definition is_user_or_assistant :: "json option \<Rightarrow> bool" where
  "is_user_or_assistant t = (t = Some (JStr ''user'') \<or> t = Some (JStr ''assistant''))"

definition is_summary :: "json option \<Rightarrow> bool" where
  "is_summary t = (t = Some (JStr ''summary''))"

text \<open>
  \<^verbatim>\<open>JSON.parse\<close> is a parameter \<open>parse\<close> of every reader below: \<open>None\<close> is the
  SyntaxError it throws.
\<close>

type_synonym parser = "string \<Rightarrow> json option"

section \<open>The file system and the storage object\<close>

record dirent =
  d_name :: string
  d_isDirectory :: bool

record stats =
  st_size :: nat
  st_mtimeMs :: int

text \<open>
  One snapshot of the file system as the calls of \<^verbatim>\<open>fs/promises\<close> see it; \<open>None\<close> is a
  rejected promise. \<open>stat\<close> and \<open>readFile\<close> are independent, so a file may have grown
  between the two. Modification times are whole milliseconds.
\<close>

record fs =
  readdir :: "string \<Rightarrow> dirent list option"
  stat :: "string \<Rightarrow> stats option"
  readFile :: "string \<Rightarrow> string option"

record history_entry =
  he_sessionId :: "string option"
  he_project :: string
  he_timestamp :: int
  he_display :: string

record session =
  s_id :: string
  s_display :: string
  s_timestamp :: int
  s_project :: string
  s_projectName :: string

record stream_result =
  messages :: "json list"
  nextOffset :: nat

record storage =
  claudeDir :: string
  projectsDir :: string
  fileIndex :: "string \<rightharpoonup> string"
  historyCache :: "history_entry list option"

definition new_storage :: "string \<Rightarrow> storage" where
  "new_storage dir =
     \<lparr>claudeDir = dir, projectsDir = join dir ''projects'',
      fileIndex = Map.empty, historyCache = None\<rparr>"

subsection \<open>buildFileIndex, addToFileIndex\<close>

definition index_files :: "string \<Rightarrow> storage \<Rightarrow> string list \<Rightarrow> storage" where
  "index_files projectPath s files =
     foldl (\<lambda>s file.
        if endsWith file ''.jsonl''
        then s\<lparr>fileIndex := (fileIndex s)(basename_jsonl file \<mapsto> join projectPath file)\<rparr>
        else s) s files"

definition index_dir :: "fs \<Rightarrow> storage \<Rightarrow> dirent \<Rightarrow> storage" where
  "index_dir f s dir =
     (let projectPath = join (projectsDir s) (d_name dir) in
      case readdir f projectPath of
        None \<Rightarrow> s
      | Some files \<Rightarrow> index_files projectPath s (map d_name files))"

text \<open>
  The directories are read concurrently and each one's files are then entered in one
  synchronous loop; the model enters the directories in listing order.
\<close>

definition buildFileIndex :: "fs \<Rightarrow> storage \<Rightarrow> storage" where
  "buildFileIndex f s =
     (case readdir f (projectsDir s) of
        None \<Rightarrow> s
      | Some projectDirs \<Rightarrow> foldl (index_dir f) s (filter d_isDirectory projectDirs))"

definition addToFileIndex :: "string \<Rightarrow> string \<Rightarrow> storage \<Rightarrow> storage" where
  "addToFileIndex sessionId filePath s =
     s\<lparr>fileIndex := (fileIndex s)(sessionId \<mapsto> filePath)\<rparr>"

subsection \<open>loadHistoryCache, invalidateHistoryCache\<close>

text \<open>
  \<open>parseEntry\<close> is \<^verbatim>\<open>JSON.parse\<close> read at the type \<^verbatim>\<open>HistoryEntry\<close>; \<open>None\<close> is a
  line it rejects.
\<close>

definition loadHistoryCache ::
  "(string \<Rightarrow> history_entry option) \<Rightarrow> fs \<Rightarrow> storage \<Rightarrow> history_entry list \<times> storage" where
  "loadHistoryCache parseEntry f s =
     (case readFile f (join (claudeDir s) ''history.jsonl'') of
        None \<Rightarrow> ([], s\<lparr>historyCache := Some []\<rparr>)
      | Some content \<Rightarrow>
          (let entries = List.map_filter parseEntry (content_lines content)
           in (entries, s\<lparr>historyCache := Some entries\<rparr>)))"

definition invalidateHistoryCache :: "storage \<Rightarrow> storage" where
  "invalidateHistoryCache s = s\<lparr>historyCache := None\<rparr>"

definition init :: "(string \<Rightarrow> history_entry option) \<Rightarrow> fs \<Rightarrow> storage \<Rightarrow> storage" where
  "init parseEntry f s = snd (loadHistoryCache parseEntry f (buildFileIndex f s))"

definition history_entries ::
  "(string \<Rightarrow> history_entry option) \<Rightarrow> fs \<Rightarrow> storage \<Rightarrow> history_entry list \<times> storage" where
  "history_entries parseEntry f s =
     (case historyCache s of
        Some entries \<Rightarrow> (entries, s)
      | None \<Rightarrow> loadHistoryCache parseEntry f s)"

subsection \<open>encodeProjectPath, getProjectName\<close>

definition encodeProjectPath :: "string \<Rightarrow> string" where
  "encodeProjectPath path = map (\<lambda>c. if c = CHR ''/'' \<or> c = CHR ''.'' then CHR ''-'' else c) path"

definition getProjectName :: "string \<Rightarrow> string" where
  "getProjectName projectPath =
     (let parts = filter (\<lambda>p. p \<noteq> []) (split_on (CHR ''/'') projectPath)
      in if parts = [] then projectPath else last parts)"

subsection \<open>findSessionByTimestamp\<close>

text \<open>
  The loop's state is \<^verbatim>\<open>(closestFile, closestTimeDiff)\<close>; \<open>None\<close> is \<^verbatim>\<open>null\<close> and
  \<^verbatim>\<open>Infinity\<close>.
\<close>

definition closest_step ::
  "int \<Rightarrow> string option \<times> int option \<Rightarrow> string \<times> int \<Rightarrow> string option \<times> int option" where
  "closest_step timestamp st fm =
     (let timeDiff = \<bar>snd fm - timestamp\<bar> in
      if (case snd st of None \<Rightarrow> True | Some d \<Rightarrow> timeDiff < d)
      then (Some (fst fm), Some timeDiff)
      else st)"

definition stat_file :: "fs \<Rightarrow> string \<Rightarrow> string \<Rightarrow> (string \<times> int) option" where
  "stat_file f projectPath file =
     map_option (\<lambda>st. (file, st_mtimeMs st)) (stat f (join projectPath file))"

definition findSessionByTimestamp :: "fs \<Rightarrow> storage \<Rightarrow> string \<Rightarrow> int \<Rightarrow> string option" where
  "findSessionByTimestamp f s encodedProject timestamp =
     (let projectPath = join (projectsDir s) encodedProject in
      case readdir f projectPath of
        None \<Rightarrow> None
      | Some files \<Rightarrow>
          (let jsonlFiles = filter (\<lambda>file. endsWith file ''.jsonl'') (map d_name files) in
           case those (map (stat_file f projectPath) jsonlFiles) of
             None \<Rightarrow> None
           | Some fileStats \<Rightarrow>
               (let closestFile = fst (foldl (closest_step timestamp) (None, None) fileStats)
                in if truthy closestFile then map_option basename_jsonl closestFile else None)))"

subsection \<open>getSessions, getProjects\<close>

text \<open>
  \<open>getSessions\<close> and \<open>getConversation\<close> run their bodies through \<^verbatim>\<open>dedupe\<close>. A call that
  runs to completion on its own finds no entry in the table and leaves none, so each is
  modelled here by its body; the table itself is the subject of the section on coalescing.
  Timestamps are integers.
\<close>

definition mk_session :: "string \<Rightarrow> history_entry \<Rightarrow> session" where
  "mk_session sessionId entry =
     \<lparr>s_id = sessionId, s_display = he_display entry, s_timestamp = he_timestamp entry,
      s_project = he_project entry, s_projectName = getProjectName (he_project entry)\<rparr>"

definition resolve_id :: "fs \<Rightarrow> storage \<Rightarrow> history_entry \<Rightarrow> string option" where
  "resolve_id f s entry =
     (if truthy (he_sessionId entry) then he_sessionId entry
      else findSessionByTimestamp f s (encodeProjectPath (he_project entry)) (he_timestamp entry))"

definition sessions_step ::
  "fs \<Rightarrow> storage \<Rightarrow> session list \<times> string set \<Rightarrow> history_entry \<Rightarrow> session list \<times> string set" where
  "sessions_step f s acc entry =
     (let sessionId = resolve_id f s entry in
      if \<not> truthy sessionId \<or> the sessionId \<in> snd acc then acc
      else (fst acc @ [mk_session (the sessionId) entry], insert (the sessionId) (snd acc)))"

text \<open>
  \<^verbatim>\<open>sessions.sort((a, b) => b.timestamp - a.timestamp)\<close>: the sort of an array is stable,
  so this is the stable sort on the negated timestamp.
\<close>

definition getSessions ::
  "(string \<Rightarrow> history_entry option) \<Rightarrow> fs \<Rightarrow> storage \<Rightarrow> session list \<times> storage" where
  "getSessions parseEntry f s =
     (let (entries, s') = history_entries parseEntry f s;
          sessions = fst (foldl (sessions_step f s') ([], {}) entries)
      in (sort_key (\<lambda>x. - s_timestamp x) sessions, s'))"

definition getProjects ::
  "(string \<Rightarrow> history_entry option) \<Rightarrow> fs \<Rightarrow> storage \<Rightarrow> string list \<times> storage" where
  "getProjects parseEntry f s =
     (let (entries, s') = history_entries parseEntry f s;
          projects = remdups (filter (\<lambda>p. p \<noteq> []) (map he_project entries))
      in (sort projects, s'))"

subsection \<open>findSessionFile\<close>

definition scan_dir :: "fs \<Rightarrow> storage \<Rightarrow> string \<Rightarrow> dirent \<Rightarrow> string option" where
  "scan_dir f s targetFile dir =
     (let projectPath = join (projectsDir s) (d_name dir) in
      case readdir f projectPath of
        None \<Rightarrow> None
      | Some files \<Rightarrow>
          if targetFile \<in> set (map d_name files) then Some (join projectPath targetFile)
          else None)"

definition findSessionFile :: "fs \<Rightarrow> storage \<Rightarrow> string \<Rightarrow> string option \<times> storage" where
  "findSessionFile f s sessionId =
     (case fileIndex s sessionId of
        Some p \<Rightarrow> (Some p, s)
      | None \<Rightarrow>
          (let targetFile = sessionId @ ''.jsonl'' in
           case readdir f (projectsDir s) of
             None \<Rightarrow> (None, s)
           | Some projectDirs \<Rightarrow>
               (let results = map (scan_dir f s targetFile) (filter d_isDirectory projectDirs) in
                case find (\<lambda>r. r \<noteq> None) results of
                  Some (Some filePath) \<Rightarrow>
                    if filePath \<noteq> []
                    then (Some filePath, s\<lparr>fileIndex := (fileIndex s)(sessionId \<mapsto> filePath)\<rparr>)
                    else (None, s)
                | _ \<Rightarrow> (None, s))))"

subsection \<open>getConversation\<close>

text \<open>
  One turn of the loop over the lines: a SyntaxError of \<^verbatim>\<open>JSON.parse\<close> and the
  TypeError of \<^verbatim>\<open>msg.type\<close> on \<^verbatim>\<open>null\<close> are caught by the same handler, which skips
  the line; \<^verbatim>\<open>push\<close> appends, \<^verbatim>\<open>unshift\<close> prepends.
\<close>

definition conv_step :: "parser \<Rightarrow> json list \<Rightarrow> string \<Rightarrow> json list" where
  "conv_step parse msgs line =
     (case parse line of
        None \<Rightarrow> msgs
      | Some msg \<Rightarrow>
          (case prop_type msg of
             Inl e \<Rightarrow> msgs
           | Inr t \<Rightarrow>
               if is_user_or_assistant t then msgs @ [msg]
               else if is_summary t then msg # msgs
               else msgs))"

definition getConversation :: "parser \<Rightarrow> fs \<Rightarrow> storage \<Rightarrow> string \<Rightarrow> json list \<times> storage" where
  "getConversation parse f s sessionId =
     (let (filePath, s') = findSessionFile f s sessionId in
      if \<not> truthy filePath then ([], s')
      else
        (case readFile f (the filePath) of
           None \<Rightarrow> ([], s')
         | Some content \<Rightarrow> (foldl (conv_step parse) [] (content_lines content), s')))"

subsection \<open>getConversationStream\<close>

text \<open>
  The loop over the lines of the stream, with its state \<^verbatim>\<open>(messages, bytesConsumed)\<close>;
  \<^verbatim>\<open>break\<close> returns the state as it is. (\<^verbatim>\<open>lineCount\<close> is never read.)
\<close>

fun stream_loop :: "parser \<Rightarrow> string list \<Rightarrow> json list \<times> nat \<Rightarrow> json list \<times> nat" where
  "stream_loop parse [] acc = acc"
| "stream_loop parse (line # rest) (msgs, bytesConsumed) =
     (let lineBytes = length line + 1 in
      if \<not> blank line then
        (case parse line of
           None \<Rightarrow> (msgs, bytesConsumed)
         | Some msg \<Rightarrow>
             (case prop_type msg of
                Inl e \<Rightarrow> (msgs, bytesConsumed)
              | Inr t \<Rightarrow>
                  stream_loop parse rest
                    (if is_user_or_assistant t then msgs @ [msg] else msgs,
                     bytesConsumed + lineBytes)))
      else stream_loop parse rest (msgs, bytesConsumed + lineBytes))"

text \<open>
  \<open>fromOffset\<close> is a natural number: only byte offsets that are not negative are considered.
  The stream starts at \<open>fromOffset\<close> and runs to the end of the file as it is when read.
  A failure of \<open>stat\<close>, of \<open>open\<close> or while reading lands in the one handler, which
  answers with no messages and the offset it was given.
\<close>

definition getConversationStream ::
  "parser \<Rightarrow> fs \<Rightarrow> storage \<Rightarrow> string \<Rightarrow> nat \<Rightarrow> stream_result \<times> storage" where
  "getConversationStream parse f s sessionId fromOffset =
     (let (filePath, s') = findSessionFile f s sessionId in
      if \<not> truthy filePath then (\<lparr>messages = [], nextOffset = 0\<rparr>, s')
      else
        (case stat f (the filePath) of
           None \<Rightarrow> (\<lparr>messages = [], nextOffset = fromOffset\<rparr>, s')
         | Some fileStat \<Rightarrow>
             (let fileSize = st_size fileStat in
              if fromOffset \<ge> fileSize then (\<lparr>messages = [], nextOffset = fromOffset\<rparr>, s')
              else
                (case readFile f (the filePath) of
                   None \<Rightarrow> (\<lparr>messages = [], nextOffset = fromOffset\<rparr>, s')
                 | Some content \<Rightarrow>
                     (let (msgs, bytesConsumed) =
                            stream_loop parse (rl_lines (drop fromOffset content)) ([], 0);
                          actualOffset = fromOffset + bytesConsumed;
                          next = (if actualOffset > fileSize then fileSize else actualOffset)
                      in (\<lparr>messages = msgs, nextOffset = next\<rparr>, s'))))))"

section \<open>The storage object over a run\<close>

text \<open>
  The operations of the engine that touch the storage object, each run to completion on
  the file system as it is at that moment: \<open>init\<close>, the two operations the change
  watcher drives (\<open>invalidateHistoryCache\<close>, \<open>addToFileIndex\<close>), and the public readers.
\<close>

datatype request =
    Init
  | InvalidateHistoryCache
  | AddToFileIndex string string
  | GetSessions
  | GetProjects
  | FindSessionFile string
  | GetConversation string
  | GetConversationStream string nat

fun exec ::
  "parser \<Rightarrow> (string \<Rightarrow> history_entry option) \<Rightarrow> fs \<Rightarrow> request \<Rightarrow> storage \<Rightarrow> storage" where
  "exec parse parseEntry f Init s = init parseEntry f s"
| "exec parse parseEntry f InvalidateHistoryCache s = invalidateHistoryCache s"
| "exec parse parseEntry f (AddToFileIndex sessionId filePath) s = addToFileIndex sessionId filePath s"
| "exec parse parseEntry f GetSessions s = snd (getSessions parseEntry f s)"
| "exec parse parseEntry f GetProjects s = snd (getProjects parseEntry f s)"
| "exec parse parseEntry f (FindSessionFile sessionId) s = snd (findSessionFile f s sessionId)"
| "exec parse parseEntry f (GetConversation sessionId) s = snd (getConversation parse f s sessionId)"
| "exec parse parseEntry f (GetConversationStream sessionId fromOffset) s =
     snd (getConversationStream parse f s sessionId fromOffset)"

definition run ::
  "parser \<Rightarrow> (string \<Rightarrow> history_entry option) \<Rightarrow> (fs \<times> request) list \<Rightarrow> storage \<Rightarrow> storage" where
  "run parse parseEntry reqs s = foldl (\<lambda>s fr. exec parse parseEntry (fst fr) (snd fr) s) s reqs"

section \<open>Coalescing of requests\<close>

text \<open>
  The table \<^verbatim>\<open>pendingRequests\<close> of the storage object maps a key to the promise of the
  computation in flight for it. Two more fields make the life of a promise explicit: the
  promises whose \<^verbatim>\<open>finally\<close> callback has not run yet (\<open>running\<close>, with the key the
  callback deletes), and the log of the callbacks that have run (\<open>removals\<close>).
\<close>

record registry =
  pendingRequests :: "string \<rightharpoonup> nat"
  running :: "nat \<rightharpoonup> string"
  executions :: "(string \<times> nat) list"
  removals :: "(string \<times> nat) list"

definition empty_registry :: registry where
  "empty_registry =
     \<lparr>pendingRequests = Map.empty, running = Map.empty, executions = [], removals = []\<rparr>"

text \<open>
  \<^verbatim>\<open>dedupe(key, fn)\<close>, up to its \<^verbatim>\<open>return\<close>: the promise handed to the caller and the
  registry after the call. A call that finds no entry calls \<^verbatim>\<open>fn\<close>, which is logged in
  \<open>executions\<close>, and registers the promise; the promise is named by its number in the log.
\<close>

definition dedupe :: "string \<Rightarrow> registry \<Rightarrow> nat \<times> registry" where
  "dedupe key st =
     (case pendingRequests st key of
        Some existing \<Rightarrow> (existing, st)
      | None \<Rightarrow>
          (let promise = length (executions st) in
           (promise,
            st\<lparr>pendingRequests := (pendingRequests st)(key \<mapsto> promise),
               running := (running st)(promise \<mapsto> key),
               executions := executions st @ [(key, promise)]\<rparr>)))"

text \<open>
  The callback \<^verbatim>\<open>() => { this.pendingRequests.delete(key) }\<close> that \<^verbatim>\<open>finally\<close> attaches:
  it runs when the computation behind \<open>promise\<close> has settled, fulfilled or rejected alike,
  with the key of its own call. A promise settles once, so nothing happens for a promise
  that is not running.
\<close>

definition finish :: "nat \<Rightarrow> registry \<Rightarrow> registry" where
  "finish promise st =
     (case running st promise of
        None \<Rightarrow> st
      | Some key \<Rightarrow>
          st\<lparr>pendingRequests := (pendingRequests st)(key := None),
             running := (running st)(promise := None),
             removals := removals st @ [(key, promise)]\<rparr>)"

text \<open>
  The engine runs on one thread: between two suspension points nothing interleaves. A run
  is a sequence of events, each atomic: a caller's request for a key, or the settling of a
  promise.
\<close>

datatype event = Request string | Finish nat

fun step :: "registry \<Rightarrow> event \<Rightarrow> registry" where
  "step st (Request key) = snd (dedupe key st)"
| "step st (Finish promise) = finish promise st"

definition run_events :: "event list \<Rightarrow> registry \<Rightarrow> registry" where
  "run_events evs st = foldl step st evs"

text \<open>
  What holds of every registry a run can reach: the entries of the registry are exactly the
  computations still running, each under its own key; the promises still running have been
  created; no promise has had its entry removed twice, and a promise whose entry has been
  removed is not running.
\<close>

definition reg_inv :: "registry \<Rightarrow> bool" where
  "reg_inv st =
     ((\<forall>key p. pendingRequests st key = Some p \<longleftrightarrow> running st p = Some key)
      \<and> (\<forall>p key. running st p = Some key \<longrightarrow> p < length (executions st))
      \<and> distinct (map snd (removals st))
      \<and> (\<forall>p \<in> snd ` set (removals st). running st p = None \<and> p < length (executions st)))"

section \<open>What a list of lines holds\<close>

text \<open>
  A line read without an exception: the value parsed and its type tag. The messages a
  list of lines holds of each kind, in the order of the lines.
\<close>

definition tagged :: "parser \<Rightarrow> string \<Rightarrow> (json \<times> json option) option" where
  "tagged parse line =
     (case parse line of
        None \<Rightarrow> None
      | Some msg \<Rightarrow> (case prop_type msg of Inl e \<Rightarrow> None | Inr t \<Rightarrow> Some (msg, t)))"

definition ua_of :: "parser \<Rightarrow> string list \<Rightarrow> json list" where
  "ua_of parse lines =
     List.map_filter
       (\<lambda>l. case tagged parse l of
              None \<Rightarrow> None
            | Some (msg, t) \<Rightarrow> if is_user_or_assistant t then Some msg else None) lines"

definition summaries_of :: "parser \<Rightarrow> string list \<Rightarrow> json list" where
  "summaries_of parse lines =
     List.map_filter
       (\<lambda>l. case tagged parse l of
              None \<Rightarrow> None
            | Some (msg, t) \<Rightarrow> if is_summary t then Some msg else None) lines"

text \<open>The lines that are not blank, and the messages whose type is user or assistant.\<close>

definition nonblank :: "string list \<Rightarrow> string list" where
  "nonblank ls = filter (\<lambda>l. \<not> blank l) ls"

definition is_ua_msg :: "json \<Rightarrow> bool" where
  "is_ua_msg msg = (case prop_type msg of Inl e \<Rightarrow> False | Inr t \<Rightarrow> is_user_or_assistant t)"

text \<open>
  For the session list: the sessions of all the history entries that resolve to an id, in
  the order of the history log and with repetitions; and the first session of a list that
  carries a given id.
\<close>

definition resolved :: "fs \<Rightarrow> storage \<Rightarrow> history_entry list \<Rightarrow> session list" where
  "resolved f s entries =
     List.map_filter
       (\<lambda>entry. if truthy (resolve_id f s entry)
                 then Some (mk_session (the (resolve_id f s entry)) entry) else None) entries"

definition by_id :: "session list \<Rightarrow> string \<rightharpoonup> session" where
  "by_id xs = map_of (map (\<lambda>x. (s_id x, x)) xs)"



text \<open>
  For the stream reader: a line the loop passes over without stopping (blank, or read
  without an exception), the bytes the loop counts for a list of lines, and the messages
  it emits for them.
\<close>

definition passes :: "parser \<Rightarrow> string \<Rightarrow> bool" where
  "passes parse line = (blank line \<or> tagged parse line \<noteq> None)"

definition line_bytes :: "string list \<Rightarrow> nat" where
  "line_bytes ls = sum_list (map (\<lambda>l. length l + 1) ls)"

definition stream_ua :: "parser \<Rightarrow> string list \<Rightarrow> json list" where
  "stream_ua parse ls = ua_of parse (filter (\<lambda>l. \<not> blank l) ls)"

section \<open>Reading a session from the start to the end of the file\<close>

text \<open>
  The procedure of the specification's tail/full property, as its words have it: call
  \<open>getConversationStream\<close> at offset 0, feed each \<open>nextOffset\<close> returned into the next call,
  stop when the offset returned has reached the end of the file (\<open>eof\<close>, the size of the
  file), and concatenate the messages of the calls. The procedure need not end: it runs on
  \<open>fuel\<close>, one unit a call, and \<open>None\<close> says that the end of the file was not reached.
\<close>

fun read_until_eof ::
  "nat \<Rightarrow> parser \<Rightarrow> fs \<Rightarrow> storage \<Rightarrow> string \<Rightarrow> nat \<Rightarrow> nat \<Rightarrow> json list option" where
  "read_until_eof 0 parse f s sessionId eof offset = None"
| "read_until_eof (Suc fuel) parse f s sessionId eof offset =
     (let r = fst (getConversationStream parse f s sessionId offset);
          s' = snd (getConversationStream parse f s sessionId offset)
      in if eof \<le> nextOffset r then Some (messages r)
         else map_option (\<lambda>ms. messages r @ ms)
                (read_until_eof fuel parse f s' sessionId eof (nextOffset r)))"

section \<open>Sample data\<close>

text \<open>
  A parser for closed statements: it knows a handful of JSON texts and rejects every other
  line. Each text it accepts is valid JSON with the value given; the lines of the
  examples that it rejects are not JSON.
\<close>

definition user_line :: string where
  \<open>user_line = ''{"type":"user"}''\<close>

definition assistant_line :: string where
  \<open>assistant_line = ''{"type":"assistant"}''\<close>

definition summary_line :: string where
  \<open>summary_line = ''{"type":"summary"}''\<close>

definition user_msg :: json where
  "user_msg = JObj [(''type'', JStr ''user'')]"

definition assistant_msg :: json where
  "assistant_msg = JObj [(''type'', JStr ''assistant'')]"

definition summary_msg :: json where
  "summary_msg = JObj [(''type'', JStr ''summary'')]"

definition sample_parse :: parser where
  "sample_parse line =
     (if line = user_line then Some user_msg
      else if line = assistant_line then Some assistant_msg
      else if line = summary_line then Some summary_msg
      else if line = ''null'' then Some JNull
      else None)"

text \<open>A file system with one project directory \<open>/c/projects/p\<close> holding one session file.\<close>

definition one_file_fs :: "string \<Rightarrow> nat \<Rightarrow> string \<Rightarrow> fs" where
  "one_file_fs name sz content =
     \<lparr>readdir = (\<lambda>p. if p = ''/c/projects'' then Some [\<lparr>d_name = ''p'', d_isDirectory = True\<rparr>]
                     else if p = ''/c/projects/p'' then Some [\<lparr>d_name = name, d_isDirectory = False\<rparr>]
                     else None),
      stat = (\<lambda>p. if p = ''/c/projects/p/'' @ name then Some \<lparr>st_size = sz, st_mtimeMs = 0\<rparr> else None),
      readFile = (\<lambda>p. if p = ''/c/projects/p/'' @ name then Some content else None)\<rparr>"

definition empty_fs :: fs where
  "empty_fs = \<lparr>readdir = (\<lambda>p. None), stat = (\<lambda>p. None), readFile = (\<lambda>p. None)\<rparr>"

text \<open>The session file of three lines: an assistant record, a summary, a user record.\<close>

definition asu_content :: string where
  "asu_content = assistant_line @ [LF] @ summary_line @ [LF] @ user_line @ [LF]"

text \<open>
  A session file caught in the middle of a write: one complete user record, then the
  beginning of a record with no line ending yet. The file is 30 bytes long.
\<close>

definition partial_line :: string where
  \<open>partial_line = ''{"type":"assis''\<close>

definition partial_content :: string where
  "partial_content = user_line @ [LF] @ partial_line"

definition partial_fs :: fs where
  "partial_fs = one_file_fs ''s.jsonl'' 30 partial_content"

text \<open>
  The project \<open>/home/me/my.app\<close> with three session files, modified at 10, 50 and 90, and
  one file that is not a session log; and a history entry of that project without a
  session id.
\<close>

definition three_files_fs :: fs where
  "three_files_fs =
     \<lparr>readdir = (\<lambda>p. if p = ''/c/projects/-home-me-my-app''
                     then Some [\<lparr>d_name = ''a.jsonl'', d_isDirectory = False\<rparr>,
                                \<lparr>d_name = ''notes.txt'', d_isDirectory = False\<rparr>,
                                \<lparr>d_name = ''b.jsonl'', d_isDirectory = False\<rparr>,
                                \<lparr>d_name = ''c.jsonl'', d_isDirectory = False\<rparr>]
                     else None),
      stat = (\<lambda>p. if p = ''/c/projects/-home-me-my-app/a.jsonl'' then Some \<lparr>st_size = 0, st_mtimeMs = 10\<rparr>
                  else if p = ''/c/projects/-home-me-my-app/b.jsonl'' then Some \<lparr>st_size = 0, st_mtimeMs = 50\<rparr>
                  else if p = ''/c/projects/-home-me-my-app/c.jsonl'' then Some \<lparr>st_size = 0, st_mtimeMs = 90\<rparr>
                  else None),
      readFile = (\<lambda>p. None)\<rparr>"

definition entry_at :: "int \<Rightarrow> history_entry" where
  "entry_at t =
     \<lparr>he_sessionId = None, he_project = ''/home/me/my.app'', he_timestamp = t, he_display = ''hi''\<rparr>"

text \<open>
  A loaded history of five entries: session \<open>x\<close>, an entry without id of the project
  above, session \<open>x\<close> again, session \<open>y\<close> with the timestamp of the first entry, and an
  entry without id whose project directory does not exist.
\<close>

definition sample_history :: "history_entry list" where
  "sample_history =
     [\<lparr>he_sessionId = Some ''x'', he_project = ''/home/me/my.app'', he_timestamp = 5, he_display = ''first x''\<rparr>,
      entry_at 55,
      \<lparr>he_sessionId = Some ''x'', he_project = ''/home/me/my.app'', he_timestamp = 99, he_display = ''second x''\<rparr>,
      \<lparr>he_sessionId = Some ''y'', he_project = ''/tmp'', he_timestamp = 5, he_display = ''y''\<rparr>,
      \<lparr>he_sessionId = None, he_project = ''/gone'', he_timestamp = 1, he_display = ''lost''\<rparr>]"

definition loaded_storage :: storage where
  "loaded_storage = (new_storage ''/c'')\<lparr>historyCache := Some sample_history\<rparr>"

definition no_entry :: "string \<Rightarrow> history_entry option" where
  "no_entry line = None"

text \<open>
  The storage after \<open>init\<close> on the file system with the one session \<open>s\<close>, and a run that
  follows once the file is gone.
\<close>

definition indexed_storage :: storage where
  "indexed_storage = init no_entry (one_file_fs ''s.jsonl'' 56 asu_content) (new_storage ''/c'')"

definition later_requests :: "(fs \<times> request) list" where
  "later_requests =
     [(empty_fs, GetConversation ''s''),
      (empty_fs, FindSessionFile ''t''),
      (empty_fs, Init),
      (empty_fs, GetConversationStream ''s'' 0),
      (empty_fs, InvalidateHistoryCache),
      (empty_fs, GetSessions),
      (one_file_fs ''t.jsonl'' 0 [], AddToFileIndex ''t'' ''/c/projects/p/t.jsonl'')]"

text \<open>The key of the session list.\<close>

definition gs :: string where
  "gs = ''getSessions''"

text \<open>
  Three session files of complete lines. The first has only records and blank lines, LF
  endings, and an empty line at each end. The second has a line that is not JSON before a
  user record. The third separates two user records by a lone CR.
\<close>

definition tidy_content :: string where
  "tidy_content =
     [LF] @ user_line @ [LF] @ ''  '' @ [LF] @ summary_line @ [LF] @ assistant_line @ [LF] @ [LF]"

definition tidy_fs :: fs where
  "tidy_fs = one_file_fs ''s.jsonl'' 61 tidy_content"

definition broken_content :: string where
  "broken_content = ''oops'' @ [LF] @ user_line @ [LF]"

definition broken_fs :: fs where
  "broken_fs = one_file_fs ''s.jsonl'' 21 broken_content"

definition cr_content :: string where
  "cr_content = user_line @ [CR] @ user_line @ [LF]"

definition cr_fs :: fs where
  "cr_fs = one_file_fs ''s.jsonl'' 32 cr_content"

section \<open>The full reader: summaries first\<close>

lemma summary_not_ua: "is_summary t \<Longrightarrow> \<not> is_user_or_assistant t"
  by (auto simp: is_summary_def is_user_or_assistant_def)

lemma conv_step_skip: "tagged parse l = None \<Longrightarrow> conv_step parse msgs l = msgs"
  by (auto simp: conv_step_def tagged_def split: option.splits sum.splits)

lemma tagged_SomeD:
  "tagged parse l = Some (msg, t) \<Longrightarrow> parse l = Some msg \<and> prop_type msg = Inr t"
  by (auto simp: tagged_def split: option.splits sum.splits)

lemma conv_loop_acc:
  "foldl (conv_step parse) (rev ss @ us) lines =
     rev (summaries_of parse lines) @ rev ss @ us @ ua_of parse lines"
proof (induction lines arbitrary: ss us)
  case Nil
  show ?case by (simp add: summaries_of_def ua_of_def)
next
  case (Cons l ls)
  show ?case
  proof (cases "tagged parse l")
    case None
    with Cons[of ss us] show ?thesis
      by (simp add: conv_step_skip summaries_of_def ua_of_def)
  next
    case (Some mt)
    obtain msg t where mt: "mt = (msg, t)" by (cases mt)
    from Some mt have p: "parse l = Some msg" "prop_type msg = Inr t"
      using tagged_SomeD by blast+
    consider (ua) "is_user_or_assistant t" | (su) "is_summary t"
      | (ot) "\<not> is_user_or_assistant t" "\<not> is_summary t" by blast
    then show ?thesis
    proof cases
      case ua
      then have ns: "\<not> is_summary t" using summary_not_ua by blast
      from p ua have "conv_step parse (rev ss @ us) l = rev ss @ (us @ [msg])"
        by (simp add: conv_step_def)
      with Some mt ua ns Cons[of ss "us @ [msg]"] show ?thesis
        by (simp add: summaries_of_def ua_of_def)
    next
      case su
      then have nu: "\<not> is_user_or_assistant t" by (rule summary_not_ua)
      from p su nu have "conv_step parse (rev ss @ us) l = rev (ss @ [msg]) @ us"
        by (simp add: conv_step_def)
      with Some mt su nu Cons[of "ss @ [msg]" us] show ?thesis
        by (simp add: summaries_of_def ua_of_def)
    next
      case ot
      with p have "conv_step parse (rev ss @ us) l = rev ss @ us"
        by (simp add: conv_step_def)
      with Some mt ot Cons[of ss us] show ?thesis
        by (simp add: summaries_of_def ua_of_def)
    qed
  qed
qed

lemma conv_loop:
  "foldl (conv_step parse) [] lines = rev (summaries_of parse lines) @ ua_of parse lines"
  using conv_loop_acc[of parse "[]" "[]" lines] by simp

text \<open>
  Claim C4. When the session file is found and read, \<open>getConversation\<close> returns the
  summary records of the file in reverse file order, followed by the user and assistant
  records in file order; every other line is left out. The witness is the file with the
  lines assistant, summary, user, which gives summary, assistant, user.
\<close>

theorem getConversation_summaries_first:
  assumes "fst (findSessionFile f s sessionId) = Some p" and "p \<noteq> []"
    and "readFile f p = Some content"
  shows "fst (getConversation parse f s sessionId) =
           rev (summaries_of parse (content_lines content)) @ ua_of parse (content_lines content)"
  using assms
  by (cases "findSessionFile f s sessionId") (simp add: getConversation_def truthy_def conv_loop)

theorem getConversation_summaries_first_witness:
  "content_lines asu_content = [assistant_line, summary_line, user_line] \<and>
   fst (getConversation sample_parse (one_file_fs ''s.jsonl'' 56 asu_content) (new_storage ''/c'') ''s'')
     = [summary_msg, assistant_msg, user_msg]"
proof -
  have 0: "content_lines asu_content = [assistant_line, summary_line, user_line]"
    by code_simp
  have 1: "fst (findSessionFile (one_file_fs ''s.jsonl'' 56 asu_content) (new_storage ''/c'') ''s'')
             = Some ''/c/projects/p/s.jsonl''"
    by code_simp
  have 2: "readFile (one_file_fs ''s.jsonl'' 56 asu_content) ''/c/projects/p/s.jsonl''
             = Some asu_content"
    by (simp add: one_file_fs_def)
  have 3: "rev (summaries_of sample_parse (content_lines asu_content))
             @ ua_of sample_parse (content_lines asu_content)
           = [summary_msg, assistant_msg, user_msg]"
    by code_simp
  show ?thesis
    using getConversation_summaries_first[OF 1 _ 2, of sample_parse] 0 3 by simp
qed

section \<open>The stream reader: the loop and the lines of the stream\<close>

lemma stream_loop_halt:
  "\<not> blank l \<Longrightarrow> tagged parse l = None \<Longrightarrow> stream_loop parse (l # rest) (msgs, n) = (msgs, n)"
  by (auto simp: tagged_def split: option.splits sum.splits)

lemma stream_loop_take:
  "\<not> blank l \<Longrightarrow> tagged parse l = Some (msg, t) \<Longrightarrow>
   stream_loop parse (l # rest) (msgs, n) =
     stream_loop parse rest (if is_user_or_assistant t then msgs @ [msg] else msgs, n + (length l + 1))"
  by (auto simp: tagged_def split: option.splits sum.splits)

lemma stream_loop_pass:
  "list_all (passes parse) pre \<Longrightarrow>
   stream_loop parse (pre @ rest) (msgs, n) =
     stream_loop parse rest (msgs @ stream_ua parse pre, n + line_bytes pre)"
proof (induction pre arbitrary: msgs n)
  case Nil
  show ?case by (simp add: stream_ua_def ua_of_def line_bytes_def)
next
  case (Cons l ls)
  then have rest: "list_all (passes parse) ls" and l: "passes parse l" by simp_all
  show ?case
  proof (cases "blank l")
    case True
    then show ?thesis
      using Cons.IH[OF rest, of msgs "n + (length l + 1)"]
      by (simp add: stream_ua_def line_bytes_def add.assoc)
  next
    case False
    with l obtain msg t where mt: "tagged parse l = Some (msg, t)"
      by (auto simp: passes_def)
    show ?thesis
      using Cons.IH[OF rest, of "if is_user_or_assistant t then msgs @ [msg] else msgs" "n + (length l + 1)"]
        False mt stream_loop_take[OF False mt]
      by (simp add: stream_ua_def ua_of_def line_bytes_def add.assoc)
  qed
qed



section \<open>The stream reader: offsets, blank lines, lines that do not parse\<close>

lemma stream_result_eq:
  assumes "fst (findSessionFile f s sessionId) = Some path" "path \<noteq> []"
    and "stat f path = Some st" "fromOffset < st_size st" "readFile f path = Some content"
  shows "fst (getConversationStream parse f s sessionId fromOffset) =
     (let r = stream_loop parse (rl_lines (drop fromOffset content)) ([], 0)
      in \<lparr>messages = fst r, nextOffset = min (st_size st) (fromOffset + snd r)\<rparr>)"
  using assms
  by (cases "findSessionFile f s sessionId")
     (auto simp: getConversationStream_def truthy_def Let_def min_def split: prod.splits)






text \<open>
  Claim C1, amended. When the session file resolves, \<open>nextOffset\<close> is at least the
  offset supplied, on every exit; when moreover \<open>stat\<close> succeeds and the offset supplied
  is at most the file size it reports, \<open>nextOffset\<close> is at most that size; an offset
  beyond that size is returned as it is; and when the session file does not resolve,
  \<open>nextOffset\<close> is 0 whatever the offset.
\<close>

theorem stream_offset_bounds:
  "(truthy (fst (findSessionFile f s sessionId)) \<longrightarrow>
      fromOffset \<le> nextOffset (fst (getConversationStream parse f s sessionId fromOffset)))
   \<and> (truthy (fst (findSessionFile f s sessionId)) \<and>
        stat f (the (fst (findSessionFile f s sessionId))) = Some st \<and> fromOffset \<le> st_size st \<longrightarrow>
      nextOffset (fst (getConversationStream parse f s sessionId fromOffset)) \<le> st_size st)
   \<and> (truthy (fst (findSessionFile f s sessionId)) \<and>
        stat f (the (fst (findSessionFile f s sessionId))) = Some st \<and> st_size st < fromOffset \<longrightarrow>
      nextOffset (fst (getConversationStream parse f s sessionId fromOffset)) = fromOffset)
   \<and> (\<not> truthy (fst (findSessionFile f s sessionId)) \<longrightarrow>
      nextOffset (fst (getConversationStream parse f s sessionId fromOffset)) = 0)"
  by (cases "findSessionFile f s sessionId")
     (auto simp: getConversationStream_def Let_def split: option.splits prod.splits)


theorem stream_offset_bounds_witness:
  "truthy (fst (findSessionFile partial_fs (new_storage ''/c'') ''s'')) \<and>
   stat partial_fs (the (fst (findSessionFile partial_fs (new_storage ''/c'') ''s'')))
     = Some \<lparr>st_size = 30, st_mtimeMs = 0\<rparr> \<and>
   (0::nat) \<le> nextOffset (fst (getConversationStream sample_parse partial_fs (new_storage ''/c'') ''s'' 0)) \<and>
   nextOffset (fst (getConversationStream sample_parse partial_fs (new_storage ''/c'') ''s'' 0)) \<le> 30 \<and>
   nextOffset (fst (getConversationStream sample_parse partial_fs (new_storage ''/c'') ''s'' 40)) = 40 \<and>
   \<not> truthy (fst (findSessionFile empty_fs (new_storage ''/c'') ''s'')) \<and>
   nextOffset (fst (getConversationStream sample_parse empty_fs (new_storage ''/c'') ''s'' 5)) = 0"
proof -
  have 1: "truthy (fst (findSessionFile partial_fs (new_storage ''/c'') ''s''))" by code_simp
  have 2: "stat partial_fs (the (fst (findSessionFile partial_fs (new_storage ''/c'') ''s'')))
     = Some \<lparr>st_size = 30, st_mtimeMs = 0\<rparr>" by code_simp
  have 3: "\<not> truthy (fst (findSessionFile empty_fs (new_storage ''/c'') ''s''))" by code_simp
  from stream_offset_bounds[of partial_fs "new_storage ''/c''" "''s''" 0 sample_parse "\<lparr>st_size = 30, st_mtimeMs = 0\<rparr>"]
       stream_offset_bounds[of partial_fs "new_storage ''/c''" "''s''" 40 sample_parse "\<lparr>st_size = 30, st_mtimeMs = 0\<rparr>"]
       stream_offset_bounds[of empty_fs "new_storage ''/c''" "''s''" 5 sample_parse "\<lparr>st_size = 30, st_mtimeMs = 0\<rparr>"]
       1 2 3
  show ?thesis by simp
qed

text \<open>
  The claim as first stated fails on two exits: an unresolved session with offset 5 is
  answered with \<open>nextOffset = 0\<close>, below the offset; and offset 40 on the file of 30 bytes
  is answered with 40, above the file size.
\<close>

theorem stream_offset_bounds_counterexample:
  "\<not> (5 \<le> nextOffset (fst (getConversationStream sample_parse empty_fs (new_storage ''/c'') ''s'' 5))) \<and>
   \<not> (nextOffset (fst (getConversationStream sample_parse partial_fs (new_storage ''/c'') ''s'' 40))
        \<le> st_size (the (stat partial_fs ''/c/projects/p/s.jsonl'')))"
  by code_simp


section \<open>Resolving a session by modification time\<close>








section \<open>The session list\<close>

lemma s_id_mk [simp]: "s_id (mk_session sid e) = sid"
  by (simp add: mk_session_def)

lemma resolved_snoc:
  "resolved f s (es @ [e]) =
     resolved f s es @ (if truthy (resolve_id f s e) then [mk_session (the (resolve_id f s e)) e] else [])"
  by (simp add: resolved_def map_filter_def)

lemma by_id_append_keep: "by_id xs k = Some x \<Longrightarrow> by_id (xs @ ys) k = Some x"
  by (simp add: by_id_def map_of_append)

lemma by_id_None: "k \<notin> s_id ` set xs \<Longrightarrow> by_id xs k = None"
  by (induction xs) (auto simp: by_id_def)

lemma by_id_append_new: "s_id x \<notin> s_id ` set xs \<Longrightarrow> by_id (xs @ [x]) (s_id x) = Some x"
  using by_id_None[of "s_id x" xs] by (simp add: by_id_def map_of_append map_add_def)

lemma sessions_loop_inv:
  "let st = foldl (sessions_step f s) ([], {}) entries; R = resolved f s entries in
     snd st = s_id ` set (fst st)
     \<and> distinct (map s_id (fst st))
     \<and> subseq (fst st) R
     \<and> (\<forall>x \<in> set (fst st). by_id R (s_id x) = Some x)
     \<and> s_id ` set (fst st) = s_id ` set R"
proof (induction entries rule: rev_induct)
  case Nil
  show ?case by (simp add: resolved_def)
next
  case (snoc e es)
  define st where "st = foldl (sessions_step f s) ([], {}) es"
  define R where "R = resolved f s es"
  from snoc have seen: "snd st = s_id ` set (fst st)" and dist: "distinct (map s_id (fst st))"
    and sub: "subseq (fst st) R" and first: "\<forall>x \<in> set (fst st). by_id R (s_id x) = Some x"
    and ids: "s_id ` set (fst st) = s_id ` set R"
    by (simp_all add: st_def R_def Let_def)
  have step: "foldl (sessions_step f s) ([], {}) (es @ [e]) = sessions_step f s st e"
    by (simp add: st_def)
  show ?case
  proof (cases "truthy (resolve_id f s e)")
    case False
    then have "sessions_step f s st e = st" by (simp add: sessions_step_def Let_def)
    moreover from False have "resolved f s (es @ [e]) = R" by (simp add: resolved_snoc R_def)
    ultimately show ?thesis using seen dist sub first ids step by (simp add: Let_def)
  next
    case True
    define sid where "sid = the (resolve_id f s e)"
    define r where "r = mk_session sid e"
    have R': "resolved f s (es @ [e]) = R @ [r]"
      using True by (simp add: resolved_snoc R_def r_def sid_def)
    have rid: "s_id r = sid" by (simp add: r_def)
    show ?thesis
    proof (cases "sid \<in> snd st")
      case dup: True
      then have st': "sessions_step f s st e = st" by (simp add: sessions_step_def sid_def Let_def)
      have "subseq (fst st) (R @ [r])" using sub by (rule subseq_rev_drop_many)
      moreover have "\<forall>x \<in> set (fst st). by_id (R @ [r]) (s_id x) = Some x"
        using first by (simp add: by_id_append_keep)
      moreover have "s_id ` set (fst st) = s_id ` set (R @ [r])"
        using ids dup seen rid by auto
      ultimately show ?thesis using seen dist step st' R' by (simp add: Let_def)
    next
      case new: False
      then have st': "sessions_step f s st e = (fst st @ [r], insert sid (snd st))"
        using True by (simp add: sessions_step_def sid_def r_def Let_def)
      have notin: "s_id r \<notin> s_id ` set R" using new seen ids rid by simp
      have a: "snd (sessions_step f s st e) = s_id ` set (fst (sessions_step f s st e))"
        using st' seen rid by auto
      have b: "distinct (map s_id (fst (sessions_step f s st e)))"
        using st' dist new seen rid by auto
      have c: "subseq (fst (sessions_step f s st e)) (R @ [r])"
        using st' sub by simp
      have d: "\<forall>x \<in> set (fst (sessions_step f s st e)). by_id (R @ [r]) (s_id x) = Some x"
        using st' first by_id_append_new[OF notin] by (auto simp: by_id_append_keep)
      have e: "s_id ` set (fst (sessions_step f s st e)) = s_id ` set (R @ [r])"
        using st' ids by auto
      from a b c d e show ?thesis using step R' by (simp add: Let_def)
    qed
  qed
qed

lemma getSessions_eq:
  "fst (getSessions parseEntry f s) =
     sort_key (\<lambda>x. - s_timestamp x)
       (fst (foldl (sessions_step f (snd (history_entries parseEntry f s))) ([], {})
               (fst (history_entries parseEntry f s))))"
  by (simp add: getSessions_def Let_def split: prod.splits)

text \<open>
  Claim C5. In the list \<open>getSessions\<close> returns no two sessions have the same id; each
  session is the one built from the first history entry that resolves to its id, and every
  id some entry resolves to is listed; the list is ordered by timestamp, descending; and
  the sessions of any one timestamp stand in the order of their history entries.
\<close>

theorem getSessions_unique_first_sorted:
  "let result = fst (getSessions parseEntry f s);
       R = resolved f (snd (history_entries parseEntry f s)) (fst (history_entries parseEntry f s))
   in distinct (map s_id result)
      \<and> (\<forall>x \<in> set result. by_id R (s_id x) = Some x)
      \<and> s_id ` set result = s_id ` set R
      \<and> sorted_wrt (\<lambda>a b. s_timestamp a \<ge> s_timestamp b) result
      \<and> (\<forall>t. subseq (filter (\<lambda>x. s_timestamp x = t) result) R)"
proof -
  define es where "es = fst (history_entries parseEntry f s)"
  define s' where "s' = snd (history_entries parseEntry f s)"
  define L where "L = fst (foldl (sessions_step f s') ([], {}) es)"
  define R where "R = resolved f s' es"
  define result where "result = fst (getSessions parseEntry f s)"
  have res: "result = sort_key (\<lambda>x. - s_timestamp x) L"
    by (simp add: result_def getSessions_eq L_def es_def s'_def)
  from sessions_loop_inv[of f s' es]
  have dist: "distinct (map s_id L)" and sub: "subseq L R"
    and first: "\<forall>x \<in> set L. by_id R (s_id x) = Some x" and ids: "s_id ` set L = s_id ` set R"
    by (simp_all add: L_def R_def Let_def)
  have set: "set result = set L" by (simp add: res)
  have 1: "distinct (map s_id result)"
    using dist by (simp add: res distinct_map)
  have 2: "\<forall>x \<in> set result. by_id R (s_id x) = Some x" using first set by simp
  have 3: "s_id ` set result = s_id ` set R" using ids set by simp
  have "sorted (map (\<lambda>x. - s_timestamp x) result)" by (simp add: res)
  then have 4: "sorted_wrt (\<lambda>a b. s_timestamp a \<ge> s_timestamp b) result"
    by (simp add: sorted_map)
  have 5: "subseq (filter (\<lambda>x. s_timestamp x = t) result) R" for t
  proof -
    have "filter (\<lambda>x. - s_timestamp x = - t) result = filter (\<lambda>x. - s_timestamp x = - t) L"
      unfolding res by (rule sort_key_stable)
    then have "filter (\<lambda>x. s_timestamp x = t) result = filter (\<lambda>x. s_timestamp x = t) L" by simp
    moreover have "subseq (filter (\<lambda>x. s_timestamp x = t) L) L" by simp
    ultimately show ?thesis using sub subseq_order.order_trans by metis
  qed
  from 1 2 3 4 5 show ?thesis
    by (simp add: Let_def result_def R_def es_def s'_def)
qed


theorem getSessions_unique_first_sorted_witness:
  "fst (getSessions no_entry three_files_fs loaded_storage)
     = [\<lparr>s_id = ''b'', s_display = ''hi'', s_timestamp = 55, s_project = ''/home/me/my.app'', s_projectName = ''my.app''\<rparr>,
        \<lparr>s_id = ''x'', s_display = ''first x'', s_timestamp = 5, s_project = ''/home/me/my.app'', s_projectName = ''my.app''\<rparr>,
        \<lparr>s_id = ''y'', s_display = ''y'', s_timestamp = 5, s_project = ''/tmp'', s_projectName = ''tmp''\<rparr>] \<and>
   distinct (map s_id (fst (getSessions no_entry three_files_fs loaded_storage))) \<and>
   sorted_wrt (\<lambda>a b. s_timestamp a \<ge> s_timestamp b) (fst (getSessions no_entry three_files_fs loaded_storage))"
proof -
  have 1: "fst (getSessions no_entry three_files_fs loaded_storage)
     = [\<lparr>s_id = ''b'', s_display = ''hi'', s_timestamp = 55, s_project = ''/home/me/my.app'', s_projectName = ''my.app''\<rparr>,
        \<lparr>s_id = ''x'', s_display = ''first x'', s_timestamp = 5, s_project = ''/home/me/my.app'', s_projectName = ''my.app''\<rparr>,
        \<lparr>s_id = ''y'', s_display = ''y'', s_timestamp = 5, s_project = ''/tmp'', s_projectName = ''tmp''\<rparr>]"
    by code_simp
  from getSessions_unique_first_sorted[of no_entry three_files_fs loaded_storage]
  have 2: "distinct (map s_id (fst (getSessions no_entry three_files_fs loaded_storage)))"
    and 3: "sorted_wrt (\<lambda>a b. s_timestamp a \<ge> s_timestamp b) (fst (getSessions no_entry three_files_fs loaded_storage))"
    by (simp_all only: Let_def)
  from 1 2 3 show ?thesis by (simp only: simp_thms)
qed


section \<open>The history cache when the log is missing\<close>

text \<open>
  Claim C9. When the history log cannot be read, \<open>loadHistoryCache\<close> returns the empty
  sequence and caches it; and \<open>getSessions\<close> and \<open>getProjects\<close>, called with no history
  cached, return empty lists.
\<close>

theorem history_missing_is_empty:
  assumes "readFile f (join (claudeDir s) ''history.jsonl'') = None"
  shows "loadHistoryCache parseEntry f s = ([], s\<lparr>historyCache := Some []\<rparr>)
         \<and> (historyCache s = None \<longrightarrow>
               fst (getSessions parseEntry f s) = [] \<and> fst (getProjects parseEntry f s) = [])"
  using assms
  by (simp add: loadHistoryCache_def getSessions_def getProjects_def history_entries_def)


theorem history_missing_is_empty_witness:
  "readFile empty_fs (join (claudeDir (new_storage ''/c'')) ''history.jsonl'') = None \<and>
   historyCache (new_storage ''/c'') = None \<and>
   fst (loadHistoryCache no_entry empty_fs (new_storage ''/c'')) = [] \<and>
   historyCache (snd (loadHistoryCache no_entry empty_fs (new_storage ''/c''))) = Some [] \<and>
   fst (getSessions no_entry empty_fs (new_storage ''/c'')) = [] \<and>
   fst (getProjects no_entry empty_fs (new_storage ''/c'')) = []"
proof -
  have 1: "readFile empty_fs (join (claudeDir (new_storage ''/c'')) ''history.jsonl'') = None"
    by (simp add: empty_fs_def)
  have 2: "historyCache (new_storage ''/c'') = None" by (simp add: new_storage_def)
  from history_missing_is_empty[OF 1, of no_entry] 1 2 show ?thesis by simp
qed

section \<open>The file index over a run\<close>

lemma index_files_dom: "dom (fileIndex s) \<subseteq> dom (fileIndex (index_files projectPath s files))"
proof (induction files arbitrary: s)
  case Nil
  show ?case by (simp add: index_files_def)
next
  case (Cons x xs)
  define s1 where "s1 = (if endsWith x ''.jsonl''
        then s\<lparr>fileIndex := (fileIndex s)(basename_jsonl x \<mapsto> join projectPath x)\<rparr>
        else s)"
  have a: "dom (fileIndex s) \<subseteq> dom (fileIndex s1)" by (auto simp: s1_def)
  have b: "index_files projectPath s (x # xs) = index_files projectPath s1 xs"
    by (simp add: index_files_def s1_def)
  have c: "dom (fileIndex s1) \<subseteq> dom (fileIndex (index_files projectPath s1 xs))"
    by (rule Cons)
  show ?case unfolding b by (rule order_trans[OF a c])
qed

lemma index_dir_dom: "dom (fileIndex s) \<subseteq> dom (fileIndex (index_dir f s dir))"
proof (cases "readdir f (join (projectsDir s) (d_name dir))")
  case None
  then show ?thesis by (simp add: index_dir_def)
next
  case (Some files)
  then show ?thesis by (simp add: index_dir_def index_files_dom)
qed

lemma fold_index_dir_dom: "dom (fileIndex s) \<subseteq> dom (fileIndex (foldl (index_dir f) s dirs))"
proof (induction dirs arbitrary: s)
  case Nil
  show ?case by simp
next
  case (Cons d ds)
  have a: "dom (fileIndex s) \<subseteq> dom (fileIndex (index_dir f s d))" by (rule index_dir_dom)
  have c: "dom (fileIndex (index_dir f s d)) \<subseteq> dom (fileIndex (foldl (index_dir f) (index_dir f s d) ds))"
    by (rule Cons)
  show ?case using order_trans[OF a c] by simp
qed

lemma buildFileIndex_dom: "dom (fileIndex s) \<subseteq> dom (fileIndex (buildFileIndex f s))"
  by (simp add: buildFileIndex_def fold_index_dir_dom split: option.splits)

lemma loadHistoryCache_fileIndex: "fileIndex (snd (loadHistoryCache parseEntry f s)) = fileIndex s"
  by (simp add: loadHistoryCache_def Let_def split: option.splits)

lemma history_entries_fileIndex: "fileIndex (snd (history_entries parseEntry f s)) = fileIndex s"
  by (simp add: history_entries_def loadHistoryCache_fileIndex split: option.splits)

lemma getSessions_state: "snd (getSessions parseEntry f s) = snd (history_entries parseEntry f s)"
  by (cases "history_entries parseEntry f s") (simp add: getSessions_def Let_def)

lemma getProjects_state: "snd (getProjects parseEntry f s) = snd (history_entries parseEntry f s)"
  by (cases "history_entries parseEntry f s") (simp add: getProjects_def Let_def)

lemma getSessions_fileIndex: "fileIndex (snd (getSessions parseEntry f s)) = fileIndex s"
  by (simp add: getSessions_state history_entries_fileIndex)

lemma getProjects_fileIndex: "fileIndex (snd (getProjects parseEntry f s)) = fileIndex s"
  by (simp add: getProjects_state history_entries_fileIndex)

lemma findSessionFile_state:
  "snd (findSessionFile f s sessionId) = s \<or>
   (\<exists>filePath. snd (findSessionFile f s sessionId) = s\<lparr>fileIndex := (fileIndex s)(sessionId \<mapsto> filePath)\<rparr>)"
proof (cases "fileIndex s sessionId")
  case (Some p)
  then show ?thesis by (simp add: findSessionFile_def)
next
  case None
  show ?thesis
  proof (cases "readdir f (projectsDir s)")
    case N2: None
    with None show ?thesis by (simp add: findSessionFile_def)
  next
    case (Some projectDirs)
    define results where
      "results = map (scan_dir f s (sessionId @ ''.jsonl'')) (filter d_isDirectory projectDirs)"
    have eq: "findSessionFile f s sessionId =
       (case find (\<lambda>r. r \<noteq> None) results of
          Some (Some filePath) \<Rightarrow>
            if filePath \<noteq> []
            then (Some filePath, s\<lparr>fileIndex := (fileIndex s)(sessionId \<mapsto> filePath)\<rparr>)
            else (None, s)
        | _ \<Rightarrow> (None, s))"
      using None Some by (simp add: findSessionFile_def results_def)
    show ?thesis
    proof (cases "find (\<lambda>r. r \<noteq> None) results")
      case N3: None
      with eq show ?thesis by simp
    next
      case S3: (Some r)
      show ?thesis
      proof (cases r)
        case N4: None
        with eq S3 show ?thesis by simp
      next
        case (Some filePath)
        with eq S3 show ?thesis by (cases "filePath = []") auto
      qed
    qed
  qed
qed

lemma findSessionFile_dom: "dom (fileIndex s) \<subseteq> dom (fileIndex (snd (findSessionFile f s sessionId)))"
  using findSessionFile_state[of f s sessionId] by auto

lemma getConversation_state: "snd (getConversation parse f s sessionId) = snd (findSessionFile f s sessionId)"
  by (cases "findSessionFile f s sessionId") (simp add: getConversation_def split: option.splits)

lemma getConversationStream_state:
  "snd (getConversationStream parse f s sessionId fromOffset) = snd (findSessionFile f s sessionId)"
  by (cases "findSessionFile f s sessionId")
     (simp add: getConversationStream_def Let_def split: option.splits prod.splits)

lemma exec_dom: "dom (fileIndex s) \<subseteq> dom (fileIndex (exec parse parseEntry f r s))"
proof (cases r)
  case Init
  then show ?thesis
    by (simp add: init_def loadHistoryCache_fileIndex buildFileIndex_dom del: subset_iff)
next
  case InvalidateHistoryCache
  then show ?thesis by (simp add: invalidateHistoryCache_def)
next
  case (AddToFileIndex sid path)
  then show ?thesis by (auto simp: addToFileIndex_def)
next
  case GetSessions
  then show ?thesis by (simp add: getSessions_fileIndex)
next
  case GetProjects
  then show ?thesis by (simp add: getProjects_fileIndex)
next
  case (FindSessionFile sid)
  then show ?thesis by (simp add: findSessionFile_dom)
next
  case (GetConversation sid)
  then show ?thesis by (simp add: getConversation_state findSessionFile_dom)
next
  case (GetConversationStream sid off)
  then show ?thesis by (simp add: getConversationStream_state findSessionFile_dom)
qed

text \<open>
  Claim C8. Over any run of operations of the engine, on any file systems, every session
  id that is a key of the file index stays a key: \<open>init\<close> (the initial scan), the scan on
  a miss in \<open>findSessionFile\<close> and \<open>addToFileIndex\<close> add or replace entries, and the other
  operations leave the index as it is.
\<close>

theorem fileIndex_never_shrinks:
  "dom (fileIndex s) \<subseteq> dom (fileIndex (run parse parseEntry reqs s))"
proof (induction reqs arbitrary: s)
  case Nil
  show ?case by (simp add: run_def)
next
  case (Cons fr reqs)
  have "run parse parseEntry (fr # reqs) s = run parse parseEntry reqs (exec parse parseEntry (fst fr) (snd fr) s)"
    by (simp add: run_def)
  with order_trans[OF exec_dom[of s parse parseEntry "fst fr" "snd fr"]
                      Cons[of "exec parse parseEntry (fst fr) (snd fr) s"]]
  show ?case by simp
qed

theorem fileIndex_never_shrinks_witness:
  "fileIndex indexed_storage ''s'' = Some ''/c/projects/p/s.jsonl'' \<and>
   ''s'' \<in> dom (fileIndex (run sample_parse no_entry later_requests indexed_storage)) \<and>
   fileIndex (run sample_parse no_entry later_requests indexed_storage) ''t''
     = Some ''/c/projects/p/t.jsonl''"
proof -
  have 1: "fileIndex indexed_storage ''s'' = Some ''/c/projects/p/s.jsonl''" by code_simp
  then have "''s'' \<in> dom (fileIndex indexed_storage)" by blast
  with fileIndex_never_shrinks[of indexed_storage sample_parse no_entry later_requests]
  have 2: "''s'' \<in> dom (fileIndex (run sample_parse no_entry later_requests indexed_storage))"
    by blast
  have 3: "fileIndex (run sample_parse no_entry later_requests indexed_storage) ''t''
     = Some ''/c/projects/p/t.jsonl''" by code_simp
  from 1 2 3 show ?thesis by blast
qed


section \<open>Coalescing: one computation per key in flight\<close>

lemma reg_inv_empty: "reg_inv empty_registry"
  by (simp add: reg_inv_def empty_registry_def)

lemma reg_inv_dedupe: assumes "reg_inv st" shows "reg_inv (snd (dedupe key st))"
proof (cases "pendingRequests st key")
  case (Some p)
  with assms show ?thesis by (simp add: dedupe_def)
next
  case None
  define n where "n = length (executions st)"
  have st': "snd (dedupe key st) =
      st\<lparr>pendingRequests := (pendingRequests st)(key \<mapsto> n),
         running := (running st)(n \<mapsto> key),
         executions := executions st @ [(key, n)]\<rparr>"
    using None by (simp add: dedupe_def n_def Let_def)
  from assms have a: "\<forall>k p. pendingRequests st k = Some p \<longleftrightarrow> running st p = Some k"
    and b: "\<forall>p k. running st p = Some k \<longrightarrow> p < n"
    and c: "distinct (map snd (removals st))"
    and d: "\<forall>p \<in> snd ` set (removals st). running st p = None \<and> p < n"
    by (simp_all add: reg_inv_def n_def)
  from b have nrun: "running st n = None" by (cases "running st n") auto
  have nokey: "running st q \<noteq> Some key" for q
  proof
    assume "running st q = Some key"
    with a have "pendingRequests st key = Some q" by simp
    with None show False by simp
  qed
  have a': "((pendingRequests st)(key \<mapsto> n)) k = Some q \<longleftrightarrow> ((running st)(n \<mapsto> key)) q = Some k" for k q
  proof (cases "k = key")
    case True
    then show ?thesis using nokey[of q] by (cases "q = n") auto
  next
    case False
    then show ?thesis using a nrun by (cases "q = n") auto
  qed
  have b': "\<forall>p k. ((running st)(n \<mapsto> key)) p = Some k \<longrightarrow> p < length (executions st @ [(key, n)])"
    using b by (auto simp: n_def less_Suc_eq)
  have d': "\<forall>p \<in> snd ` set (removals st). ((running st)(n \<mapsto> key)) p = None \<and> p < length (executions st @ [(key, n)])"
    using d by (auto simp: n_def)
  show ?thesis unfolding st' reg_inv_def using a' b' c d' by simp
qed

lemma reg_inv_finish: assumes "reg_inv st" shows "reg_inv (finish p st)"
proof (cases "running st p")
  case None
  with assms show ?thesis by (simp add: finish_def)
next
  case (Some key)
  have st': "finish p st =
      st\<lparr>pendingRequests := (pendingRequests st)(key := None),
         running := (running st)(p := None),
         removals := removals st @ [(key, p)]\<rparr>"
    using Some by (simp add: finish_def)
  from assms have a: "\<forall>k q. pendingRequests st k = Some q \<longleftrightarrow> running st q = Some k"
    and b: "\<forall>q k. running st q = Some k \<longrightarrow> q < length (executions st)"
    and c: "distinct (map snd (removals st))"
    and d: "\<forall>q \<in> snd ` set (removals st). running st q = None \<and> q < length (executions st)"
    by (simp_all add: reg_inv_def)
  from a Some have pk: "pendingRequests st key = Some p" by simp
  have uniq: "q = p" if "running st q = Some key" for q
  proof -
    from a that have "pendingRequests st key = Some q" by simp
    with pk show ?thesis by simp
  qed
  have a': "((pendingRequests st)(key := None)) k = Some q \<longleftrightarrow> ((running st)(p := None)) q = Some k" for k q
  proof (cases "k = key")
    case True
    then show ?thesis using uniq[of q] by (cases "q = p") auto
  next
    case False
    then show ?thesis using a Some by (cases "q = p") auto
  qed
  have b': "\<forall>q k. ((running st)(p := None)) q = Some k \<longrightarrow> q < length (executions st)"
    using b by auto
  have pn: "p \<notin> snd ` set (removals st)" using d Some by force
  have c': "distinct (map snd (removals st @ [(key, p)]))" using c pn by simp
  have plt: "p < length (executions st)" using b Some by auto
  have d': "\<forall>q \<in> snd ` set (removals st @ [(key, p)]). ((running st)(p := None)) q = None \<and> q < length (executions st)"
    using d plt by auto
  show ?thesis unfolding st' reg_inv_def using a' b' c' d' by simp
qed

lemma reg_inv_step: "reg_inv st \<Longrightarrow> reg_inv (step st ev)"
  by (cases ev) (simp_all add: reg_inv_dedupe reg_inv_finish)

lemma reg_inv_run: "reg_inv st \<Longrightarrow> reg_inv (run_events evs st)"
  unfolding run_events_def by (induction evs arbitrary: st) (simp_all add: reg_inv_step)

lemma run_events_append: "run_events (xs @ ys) st = run_events ys (run_events xs st)"
  by (simp add: run_events_def)

lemma step_keeps_entry:
  assumes "reg_inv st" and "pendingRequests st key = Some p" and "ev \<noteq> Finish p"
  shows "pendingRequests (step st ev) key = Some p \<and> executions (step st ev) = executions st @ (case ev of Request k \<Rightarrow> (if pendingRequests st k = None then [(k, length (executions st))] else []) | Finish q \<Rightarrow> [])"
proof (cases ev)
  case (Request k)
  show ?thesis
  proof (cases "pendingRequests st k")
    case None
    with assms(2) have "k \<noteq> key" by auto
    with None Request assms(2) show ?thesis by (simp add: dedupe_def Let_def)
  next
    case (Some q)
    with Request assms(2) show ?thesis by (simp add: dedupe_def)
  qed
next
  case (Finish q)
  with assms(3) have qp: "q \<noteq> p" by simp
  show ?thesis
  proof (cases "running st q")
    case None
    with Finish assms(2) show ?thesis by (simp add: finish_def)
  next
    case (Some k)
    from assms(1) have a: "\<forall>k q. pendingRequests st k = Some q \<longleftrightarrow> running st q = Some k"
      by (simp add: reg_inv_def)
    from a Some have "pendingRequests st k = Some q" by simp
    with assms(2) qp have "k \<noteq> key" by auto
    with Some Finish assms(2) show ?thesis by (simp add: finish_def)
  qed
qed

lemma run_keeps_entry:
  assumes "reg_inv st" and "pendingRequests st key = Some p" and "Finish p \<notin> set evs"
  shows "pendingRequests (run_events evs st) key = Some p"
  using assms
proof (induction evs arbitrary: st)
  case Nil
  then show ?case by (simp add: run_events_def)
next
  case (Cons ev evs)
  from Cons.prems have ne: "ev \<noteq> Finish p" and rest: "Finish p \<notin> set evs" by auto
  from step_keeps_entry[OF Cons.prems(1,2) ne] have k: "pendingRequests (step st ev) key = Some p" by simp
  have "run_events (ev # evs) st = run_events evs (step st ev)" by (simp add: run_events_def)
  with Cons.IH[OF reg_inv_step[OF Cons.prems(1)] k rest] show ?case by simp
qed


lemma removals_step: "set (removals st) \<subseteq> set (removals (step st ev))"
proof (cases ev)
  case (Request k)
  then show ?thesis by (cases "pendingRequests st k") (simp_all add: dedupe_def Let_def)
next
  case (Finish q)
  then show ?thesis by (cases "running st q") (auto simp: finish_def)
qed

lemma removals_run: "set (removals st) \<subseteq> set (removals (run_events evs st))"
proof (induction evs arbitrary: st)
  case Nil
  show ?case by (simp add: run_events_def)
next
  case (Cons ev evs)
  have "run_events (ev # evs) st = run_events evs (step st ev)" by (simp add: run_events_def)
  with order_trans[OF removals_step[of st ev] Cons[of "step st ev"]] show ?case by simp
qed

lemma count_list_distinct: "distinct xs \<Longrightarrow> x \<in> set xs \<Longrightarrow> count_list xs x = 1"
  by (induction xs) auto

lemma dedupe_entry: "pendingRequests (snd (dedupe key st)) key = Some (fst (dedupe key st))"
  by (cases "pendingRequests st key") (simp_all add: dedupe_def Let_def)

lemma dedupe_attach: "pendingRequests st key = Some p \<Longrightarrow> dedupe key st = (p, st)"
  by (simp add: dedupe_def)

lemma dedupe_fresh:
  "pendingRequests st key = None \<Longrightarrow>
   fst (dedupe key st) = length (executions st) \<and>
   executions (snd (dedupe key st)) = executions st @ [(key, fst (dedupe key st))]"
  by (simp add: dedupe_def Let_def)

text \<open>
  Claim C7. In a registry reached by any run, let a request for \<open>key\<close> be answered with the
  promise \<open>p\<close>, and let any events follow in which \<open>p\<close> does not settle. Then a second
  request for \<open>key\<close> is answered with the same promise \<open>p\<close> and leaves the registry, and
  with it the log of executions, as it is; when \<open>p\<close> settles the entry of \<open>key\<close> is removed;
  whatever follows, the log of removals holds \<open>p\<close> exactly once; and the next request for
  \<open>key\<close> is answered with a new promise and executes again.
\<close>

theorem request_coalescing:
  assumes "st = run_events evs empty_registry"
    and "p = fst (dedupe key st)"
    and "Finish p \<notin> set evs'"
    and "st2 = run_events evs' (snd (dedupe key st))"
    and "st3 = finish p st2"
  shows "(pendingRequests st key = None \<longrightarrow>
            executions (snd (dedupe key st)) = executions st @ [(key, p)])
       \<and> dedupe key st2 = (p, st2)
       \<and> pendingRequests st3 key = None
       \<and> (\<forall>evs''. count_list (map snd (removals (run_events evs'' st3))) p = 1)
       \<and> fst (dedupe key st3) \<noteq> p
       \<and> executions (snd (dedupe key st3)) = executions st2 @ [(key, fst (dedupe key st3))]"
proof -
  have inv: "reg_inv st" unfolding assms(1) by (rule reg_inv_run[OF reg_inv_empty])
  have inv1: "reg_inv (snd (dedupe key st))" by (rule reg_inv_dedupe[OF inv])
  have e1: "pendingRequests (snd (dedupe key st)) key = Some p"
    unfolding assms(2) by (rule dedupe_entry)
  have inv2: "reg_inv st2" unfolding assms(4) by (rule reg_inv_run[OF inv1])
  have e2: "pendingRequests st2 key = Some p"
    unfolding assms(4) by (rule run_keeps_entry[OF inv1 e1 assms(3)])
  have A: "pendingRequests st key = None \<longrightarrow>
            executions (snd (dedupe key st)) = executions st @ [(key, p)]"
    using dedupe_fresh[of st key] assms(2) by simp
  have B: "dedupe key st2 = (p, st2)" by (rule dedupe_attach[OF e2])
  from inv2 e2 have r2: "running st2 p = Some key" by (simp add: reg_inv_def)
  from inv2 r2 have plt: "p < length (executions st2)" unfolding reg_inv_def by blast
  have st3: "st3 = st2\<lparr>pendingRequests := (pendingRequests st2)(key := None),
                        running := (running st2)(p := None),
                        removals := removals st2 @ [(key, p)]\<rparr>"
    unfolding assms(5) using r2 by (simp add: finish_def)
  have C: "pendingRequests st3 key = None" by (simp add: st3)
  have inv3: "reg_inv st3" unfolding assms(5) by (rule reg_inv_finish[OF inv2])
  have D: "count_list (map snd (removals (run_events evs'' st3))) p = 1" for evs''
  proof -
    have "(key, p) \<in> set (removals st3)" by (simp add: st3)
    with removals_run[of st3 evs''] have "(key, p) \<in> set (removals (run_events evs'' st3))" by blast
    then have mem: "p \<in> set (map snd (removals (run_events evs'' st3)))" by force
    have "reg_inv (run_events evs'' st3)" by (rule reg_inv_run[OF inv3])
    then have "distinct (map snd (removals (run_events evs'' st3)))" by (simp add: reg_inv_def)
    from count_list_distinct[OF this mem] show ?thesis .
  qed
  have ex3: "executions st3 = executions st2" by (simp add: st3)
  from dedupe_fresh[OF C] ex3 plt
  have E: "fst (dedupe key st3) \<noteq> p"
    and F: "executions (snd (dedupe key st3)) = executions st2 @ [(key, fst (dedupe key st3))]"
    by simp_all
  from A B C D E F show ?thesis by blast
qed

theorem request_coalescing_witness:
  "Finish (fst (dedupe gs empty_registry)) \<notin> set [Request ''getConversation:s'', Request gs] \<and>
   fst (dedupe gs empty_registry) = 0 \<and>
   executions (run_events [Request gs, Request ''getConversation:s'', Request gs] empty_registry)
     = [(gs, 0), (''getConversation:s'', 1)] \<and>
   fst (dedupe gs (run_events [Request gs, Request ''getConversation:s'', Request gs] empty_registry)) = 0 \<and>
   pendingRequests (run_events [Request gs, Request ''getConversation:s'', Request gs, Finish 0] empty_registry) gs = None \<and>
   removals (run_events [Request gs, Request ''getConversation:s'', Request gs, Finish 0, Finish 0, Request gs] empty_registry)
     = [(gs, 0)] \<and>
   executions (run_events [Request gs, Request ''getConversation:s'', Request gs, Finish 0, Finish 0, Request gs] empty_registry)
     = [(gs, 0), (''getConversation:s'', 1), (gs, 2)]"
proof -
  have 0: "empty_registry = run_events [] empty_registry" by (simp add: run_events_def)
  have 1: "Finish (fst (dedupe gs empty_registry)) \<notin> set [Request ''getConversation:s'', Request gs]"
    by simp
  from request_coalescing[OF 0 refl 1 refl refl]
  have 2: "pendingRequests (finish (fst (dedupe gs empty_registry))
              (run_events [Request ''getConversation:s'', Request gs] (snd (dedupe gs empty_registry)))) gs = None"
    by blast
  have 3: "finish (fst (dedupe gs empty_registry))
              (run_events [Request ''getConversation:s'', Request gs] (snd (dedupe gs empty_registry)))
           = run_events [Request gs, Request ''getConversation:s'', Request gs, Finish 0] empty_registry"
    by (simp add: run_events_def dedupe_def empty_registry_def gs_def)
  have 4: "fst (dedupe gs empty_registry) = 0" by code_simp
  have 5: "executions (run_events [Request gs, Request ''getConversation:s'', Request gs] empty_registry)
     = [(gs, 0), (''getConversation:s'', 1)]" by code_simp
  have 6: "fst (dedupe gs (run_events [Request gs, Request ''getConversation:s'', Request gs] empty_registry)) = 0"
    by code_simp
  have 7: "removals (run_events [Request gs, Request ''getConversation:s'', Request gs, Finish 0, Finish 0, Request gs] empty_registry)
     = [(gs, 0)]" by code_simp
  have 8: "executions (run_events [Request gs, Request ''getConversation:s'', Request gs, Finish 0, Finish 0, Request gs] empty_registry)
     = [(gs, 0), (''getConversation:s'', 1), (gs, 2)]" by code_simp
  from 1 2 3 4 5 6 7 8 show ?thesis by simp
qed


section \<open>The two readers on the same file\<close>

subsection \<open>Splitting and trimming\<close>

lemma split_aux_cur:
  "split_aux d cur s = (cur @ hd (split_aux d [] s)) # tl (split_aux d [] s)"
proof (induction s arbitrary: cur)
  case Nil
  show ?case by simp
next
  case (Cons c cs)
  show ?case
  proof (cases "c = d")
    case True
    then show ?thesis by simp
  next
    case False
    from Cons[of "cur @ [c]"] Cons[of "[c]"] False show ?thesis by simp
  qed
qed

lemma split_on_Nil: "split_on d [] = [[]]"
  by (simp add: split_on_def)

lemma split_on_Cons:
  "split_on d (c # cs) =
     (if c = d then [] # split_on d cs else (c # hd (split_on d cs)) # tl (split_on d cs))"
  using split_aux_cur[of d "[c]" cs] by (simp add: split_on_def)

lemma split_on_nonempty: "split_on d s \<noteq> []"
  by (cases s) (simp_all add: split_on_Nil split_on_Cons)

lemma split_on_snoc:
  "split_on d (s @ [x]) =
     (if x = d then split_on d s @ [[]]
      else butlast (split_on d s) @ [last (split_on d s) @ [x]])"
proof (induction s)
  case Nil
  show ?case by (simp add: split_on_Nil split_on_Cons)
next
  case (Cons c cs)
  obtain h t where ht: "split_on d cs = h # t"
    using split_on_nonempty[of d cs] by (cases "split_on d cs") auto
  show ?case
  proof (cases "x = d")
    case True
    with Cons ht show ?thesis by (simp add: split_on_Cons)
  next
    case False
    with Cons ht show ?thesis by (cases t rule: rev_cases) (auto simp: split_on_Cons)
  qed
qed

lemma split_on_rev: "split_on d (rev s) = rev (map rev (split_on d s))"
proof (induction s)
  case Nil
  show ?case by (simp add: split_on_Nil)
next
  case (Cons c cs)
  obtain h t where ht: "split_on d cs = h # t"
    using split_on_nonempty[of d cs] by (cases "split_on d cs") auto
  with Cons show ?case by (simp add: split_on_snoc split_on_Cons)
qed

lemma blank_Nil [simp]: "blank []" by (simp add: blank_def)
lemma blank_Cons [simp]: "blank (c # cs) = (is_ws c \<and> blank cs)" by (simp add: blank_def)
lemma blank_rev [simp]: "blank (rev l) = blank l" by (simp add: blank_def list_all_iff)
lemma is_ws_LF [simp]: "is_ws LF" by (simp add: is_ws_def LF_def)

lemma ltrim_simps [simp]:
  "ltrim [] = []" "ltrim (c # cs) = (if is_ws c then ltrim cs else c # cs)"
  by (simp_all add: ltrim_def)

lemma nonblank_split_ltrim:
  "nonblank (split_on LF (ltrim s)) =
     (case nonblank (split_on LF s) of [] \<Rightarrow> [] | l # ls \<Rightarrow> ltrim l # ls)"
proof (induction s)
  case Nil
  show ?case by (simp add: split_on_Nil nonblank_def)
next
  case (Cons c cs)
  obtain h t where ht: "split_on LF cs = h # t"
    using split_on_nonempty[of LF cs] by (cases "split_on LF cs") auto
  show ?case
  proof (cases "is_ws c")
    case False
    then have "c \<noteq> LF" by auto
    with False ht show ?thesis by (simp add: split_on_Cons nonblank_def)
  next
    case True
    show ?thesis
    proof (cases "c = LF")
      case T2: True
      with True Cons show ?thesis by (simp add: split_on_Cons nonblank_def)
    next
      case F2: False
      with True Cons ht show ?thesis by (simp add: split_on_Cons nonblank_def)
    qed
  qed
qed

lemma rtrim_rev: "rtrim s = rev (ltrim (rev s))"
  by (simp add: rtrim_def ltrim_def)

lemma nonblank_rev_map: "nonblank (rev (map rev ls)) = rev (map rev (nonblank ls))"
  by (simp add: nonblank_def rev_filter[symmetric] filter_map comp_def)

lemma nonblank_split_rtrim:
  "nonblank (split_on LF (rtrim s)) =
     (case rev (nonblank (split_on LF s)) of [] \<Rightarrow> [] | l # ls \<Rightarrow> rev ls @ [rtrim l])"
proof -
  have "nonblank (split_on LF (rtrim s)) = rev (map rev (nonblank (split_on LF (ltrim (rev s)))))"
    by (simp add: rtrim_rev split_on_rev nonblank_rev_map)
  also have "nonblank (split_on LF (ltrim (rev s))) =
      (case nonblank (split_on LF (rev s)) of [] \<Rightarrow> [] | l # ls \<Rightarrow> ltrim l # ls)"
    by (rule nonblank_split_ltrim)
  also have "nonblank (split_on LF (rev s)) = rev (map rev (nonblank (split_on LF s)))"
    by (simp add: split_on_rev nonblank_rev_map)
  finally show ?thesis
    by (cases "nonblank (split_on LF s)" rule: rev_cases) (simp_all add: rtrim_rev rev_map)
qed


lemma split_aux_nonempty: "split_aux d cur s \<noteq> []"
  by (induction s arbitrary: cur) auto

lemma rl_aux_split:
  "CR \<notin> set data \<Longrightarrow>
   rl_lines_aux cur data =
     (if last (split_aux LF cur data) = [] then butlast (split_aux LF cur data)
      else split_aux LF cur data)"
proof (induction data arbitrary: cur)
  case Nil
  show ?case by simp
next
  case (Cons c cs)
  then have ncr: "c \<noteq> CR" and rest: "CR \<notin> set cs" by auto
  show ?case
  proof (cases "c = LF")
    case True
    with Cons.IH[OF rest, of "[]"] split_aux_nonempty[of LF "[]" cs] show ?thesis by simp
  next
    case False
    with ncr Cons.IH[OF rest, of "cur @ [c]"] show ?thesis by simp
  qed
qed

lemma nonblank_butlast_blank: "ls \<noteq> [] \<Longrightarrow> blank (last ls) \<Longrightarrow> nonblank (butlast ls) = nonblank ls"
  by (induction ls) (auto simp: nonblank_def)

lemma nonblank_rl_lines:
  "CR \<notin> set data \<Longrightarrow> nonblank (rl_lines data) = nonblank (split_on LF data)"
  using split_aux_nonempty[of LF "[]" data]
  by (simp add: rl_lines_def split_on_def rl_aux_split nonblank_butlast_blank)

lemma line_bytes_Nil [simp]: "line_bytes [] = 0"
  by (simp add: line_bytes_def)

lemma line_bytes_Cons [simp]: "line_bytes (l # ls) = length l + 1 + line_bytes ls"
  by (simp add: line_bytes_def)

lemma rl_aux_bytes:
  "CR \<notin> set data \<Longrightarrow> length cur + length data \<le> line_bytes (rl_lines_aux cur data)"
proof (induction data arbitrary: cur)
  case Nil
  show ?case by simp
next
  case (Cons c cs)
  then have ncr: "c \<noteq> CR" and rest: "CR \<notin> set cs" by auto
  show ?case
  proof (cases "c = LF")
    case True
    with Cons.IH[OF rest, of "[]"] show ?thesis by simp
  next
    case False
    with ncr Cons.IH[OF rest, of "cur @ [c]"] show ?thesis by simp
  qed
qed

lemma rl_lines_bytes: "CR \<notin> set data \<Longrightarrow> length data \<le> line_bytes (rl_lines data)"
  using rl_aux_bytes[of data "[]"] by (simp add: rl_lines_def)

subsection \<open>The messages of the lines\<close>

lemma ua_of_Nil [simp]: "ua_of parse [] = []"
  by (simp add: ua_of_def)

lemma ua_of_Cons:
  "ua_of parse (l # ls) =
     (case tagged parse l of
        None \<Rightarrow> ua_of parse ls
      | Some mt \<Rightarrow> if is_user_or_assistant (snd mt) then fst mt # ua_of parse ls else ua_of parse ls)"
  by (auto simp: ua_of_def split: option.splits)

lemma summaries_of_Nil [simp]: "summaries_of parse [] = []"
  by (simp add: summaries_of_def)

lemma summaries_of_Cons:
  "summaries_of parse (l # ls) =
     (case tagged parse l of
        None \<Rightarrow> summaries_of parse ls
      | Some mt \<Rightarrow> if is_summary (snd mt) then fst mt # summaries_of parse ls else summaries_of parse ls)"
  by (auto simp: summaries_of_def split: option.splits)

lemma ua_of_all_ua: "list_all is_ua_msg (ua_of parse ls)"
proof (induction ls)
  case Nil
  show ?case by simp
next
  case (Cons l ls)
  show ?case
  proof (cases "tagged parse l")
    case None
    with Cons show ?thesis by (simp add: ua_of_Cons)
  next
    case (Some mt)
    obtain msg t where mt: "mt = (msg, t)" by (cases mt)
    with Some have "prop_type msg = Inr t" using tagged_SomeD by blast
    with Some mt Cons show ?thesis by (simp add: ua_of_Cons is_ua_msg_def)
  qed
qed

lemma summaries_of_no_ua: "list_all (\<lambda>m. \<not> is_ua_msg m) (summaries_of parse ls)"
proof (induction ls)
  case Nil
  show ?case by simp
next
  case (Cons l ls)
  show ?case
  proof (cases "tagged parse l")
    case None
    with Cons show ?thesis by (simp add: summaries_of_Cons)
  next
    case (Some mt)
    obtain msg t where mt: "mt = (msg, t)" by (cases mt)
    with Some have "prop_type msg = Inr t" using tagged_SomeD by blast
    with Some mt Cons summary_not_ua[of t] show ?thesis
      by (simp add: summaries_of_Cons is_ua_msg_def)
  qed
qed

lemma filter_ua_conversation:
  "filter is_ua_msg (rev (summaries_of parse ls) @ ua_of parse ls) = ua_of parse ls"
proof -
  have "filter is_ua_msg (ua_of parse ls) = ua_of parse ls"
    using ua_of_all_ua[of parse ls] by (simp add: list_all_iff)
  moreover have "filter is_ua_msg (rev (summaries_of parse ls)) = []"
    using summaries_of_no_ua[of parse ls] by (simp add: list_all_iff)
  ultimately show ?thesis by simp
qed

lemma ua_of_cong:
  "map parse xs = map parse ys \<Longrightarrow> ua_of parse xs = ua_of parse ys"
proof (induction xs arbitrary: ys)
  case Nil
  then show ?case by simp
next
  case (Cons x xs)
  then obtain y ys' where ys: "ys = y # ys'" by (cases ys) auto
  with Cons.prems have p: "parse x = parse y" and r: "map parse xs = map parse ys'" by simp_all
  from p have "tagged parse x = tagged parse y" by (simp add: tagged_def)
  with Cons.IH[OF r] ys show ?case by (simp add: ua_of_Cons split: option.splits)
qed

lemma ua_of_nonblank:
  assumes "\<forall>l. blank l \<longrightarrow> parse l = None"
  shows "ua_of parse (filter Q ls) = ua_of parse (nonblank (filter Q ls))"
proof (induction ls)
  case Nil
  show ?case by (simp add: nonblank_def)
next
  case (Cons l ls)
  show ?case
  proof (cases "blank l")
    case True
    with assms have "tagged parse l = None" by (simp add: tagged_def)
    with True Cons show ?thesis by (simp add: nonblank_def ua_of_Cons)
  next
    case False
    with Cons show ?thesis by (simp add: nonblank_def ua_of_Cons split: option.splits)
  qed
qed


lemma getConversation_result:
  assumes "fst (findSessionFile f s sessionId) = Some p" and "p \<noteq> []"
    and "readFile f p = Some content"
  shows "fst (getConversation parse f s sessionId) =
           rev (summaries_of parse (content_lines content)) @ ua_of parse (content_lines content)"
  using assms
  by (cases "findSessionFile f s sessionId") (simp add: getConversation_def truthy_def conv_loop)

lemma map_parse_last:
  "xs \<noteq> [] \<Longrightarrow> parse (g (last xs)) = parse (last xs) \<Longrightarrow>
   map parse (butlast xs @ [g (last xs)]) = map parse xs"
  by (induction xs) auto

lemma nonblank_filter_nonempty: "nonblank (filter (\<lambda>l. l \<noteq> []) ls) = nonblank ls"
  by (induction ls) (auto simp: nonblank_def)

lemma ua_lines_agree:
  assumes ncr: "CR \<notin> set content"
    and pass: "list_all (passes parse) (rl_lines content)"
    and P1: "\<forall>l. parse l \<noteq> None \<longrightarrow> parse (ltrim l) = parse l \<and> parse (rtrim l) = parse l"
    and P2: "\<forall>l. blank l \<longrightarrow> parse l = None"
  shows "ua_of parse (content_lines content) = stream_ua parse (rl_lines content)"
proof -
  define N where "N = nonblank (split_on LF content)"
  define M where "M = nonblank (split_on LF (ltrim content))"
  define T where "T = nonblank (split_on LF (js_trim content))"
  have N_rl: "N = nonblank (rl_lines content)"
    unfolding N_def by (rule nonblank_rl_lines[OF ncr, symmetric])
  have ok: "parse l \<noteq> None" if "l \<in> set N" for l
  proof -
    from that have "l \<in> set (rl_lines content)" "\<not> blank l" by (simp_all add: N_rl nonblank_def)
    with pass have "tagged parse l \<noteq> None" by (auto simp: list_all_iff passes_def)
    then show ?thesis by (auto simp: tagged_def split: option.splits)
  qed
  have M_eq: "M = (case N of [] \<Rightarrow> [] | l # ls \<Rightarrow> ltrim l # ls)"
    unfolding M_def N_def by (rule nonblank_split_ltrim)
  have T_eq: "T = (case rev M of [] \<Rightarrow> [] | l # ls \<Rightarrow> rev ls @ [rtrim l])"
    unfolding T_def M_def js_trim_def by (rule nonblank_split_rtrim)
  have MN: "map parse M = map parse N"
  proof (cases N)
    case Nil
    with M_eq show ?thesis by simp
  next
    case (Cons l ls)
    then have "parse l \<noteq> None" using ok[of l] by simp
    with P1 have "parse (ltrim l) = parse l" by blast
    with M_eq Cons show ?thesis by simp
  qed
  have TM: "map parse T = map parse M"
  proof (cases "M = []")
    case True
    with T_eq show ?thesis by simp
  next
    case False
    then have T': "T = butlast M @ [rtrim (last M)]"
      using T_eq by (cases M rule: rev_cases) simp_all
    from False MN have Nne: "N \<noteq> []" by auto
    have "parse (last M) = parse (last N)"
      using MN False Nne by (metis last_map)
    moreover have "parse (last N) \<noteq> None" using ok[of "last N"] Nne by simp
    ultimately have "parse (last M) \<noteq> None" by simp
    with P1 have "parse (rtrim (last M)) = parse (last M)" by blast
    with map_parse_last[of M parse rtrim] False T' show ?thesis by simp
  qed
  have "ua_of parse (content_lines content) = ua_of parse T"
    unfolding content_lines_def T_def
    using ua_of_nonblank[OF P2, of "\<lambda>l. l \<noteq> []" "split_on LF (js_trim content)"]
    by (simp add: nonblank_filter_nonempty)
  also have "\<dots> = ua_of parse N" by (rule ua_of_cong) (simp add: TM MN)
  also have "\<dots> = stream_ua parse (rl_lines content)"
    by (simp add: N_rl stream_ua_def nonblank_def)
  finally show ?thesis .
qed

text \<open>
  Claim C2, amended. Take a session file that is found and read, whose size is the length of
  its content, that holds no CR, and in which every line is blank or is read without an
  exception (it parses, and not to \<open>null\<close>); and a parser that, like \<^verbatim>\<open>JSON.parse\<close>, reads
  a text it accepts the same with the surrounding white space trimmed, and rejects blank
  text. Then the call of \<open>getConversationStream\<close> at offset 0 returns the user and assistant
  messages of \<open>getConversation\<close>'s result, in the same order, and the size of the file as
  \<open>nextOffset\<close>; so reading from the start to the end of the file ends, with any fuel but
  none, and yields exactly these messages.
\<close>

theorem tail_full_equivalence:
  assumes "fst (findSessionFile f s sessionId) = Some path" and "path \<noteq> []"
    and "stat f path = Some st" and "readFile f path = Some content"
    and "st_size st = length content"
    and "CR \<notin> set content"
    and "list_all (passes parse) (rl_lines content)"
    and "\<forall>l. parse l \<noteq> None \<longrightarrow> parse (ltrim l) = parse l \<and> parse (rtrim l) = parse l"
    and "\<forall>l. blank l \<longrightarrow> parse l = None"
  shows "fst (getConversationStream parse f s sessionId 0) =
           \<lparr>messages = filter is_ua_msg (fst (getConversation parse f s sessionId)),
            nextOffset = length content\<rparr>
       \<and> read_until_eof (Suc fuel) parse f s sessionId (length content) 0 =
           Some (filter is_ua_msg (fst (getConversation parse f s sessionId)))"
proof -
  have conv: "filter is_ua_msg (fst (getConversation parse f s sessionId)) = ua_of parse (content_lines content)"
    unfolding getConversation_result[OF assms(1,2,4)] by (rule filter_ua_conversation)
  have agree: "ua_of parse (content_lines content) = stream_ua parse (rl_lines content)"
    by (rule ua_lines_agree[OF assms(6-9)])
  have r: "fst (getConversationStream parse f s sessionId 0) =
           \<lparr>messages = stream_ua parse (rl_lines content), nextOffset = length content\<rparr>"
  proof (cases "content = []")
    case True
    with assms(1-5) show ?thesis
      by (cases "findSessionFile f s sessionId")
         (simp add: getConversationStream_def truthy_def Let_def rl_lines_def stream_ua_def)
  next
    case False
    then have pos: "0 < st_size st" using assms(5) by simp
    have loop: "stream_loop parse (rl_lines content) ([], 0)
                  = (stream_ua parse (rl_lines content), line_bytes (rl_lines content))"
      using stream_loop_pass[OF assms(7), of "[]" "[]" 0] by simp
    have "min (st_size st) (line_bytes (rl_lines content)) = length content"
      using rl_lines_bytes[OF assms(6)] assms(5) by simp
    with stream_result_eq[OF assms(1,2,3) pos assms(4), of parse] loop show ?thesis by simp
  qed
  from r conv agree have 1: "fst (getConversationStream parse f s sessionId 0) =
           \<lparr>messages = filter is_ua_msg (fst (getConversation parse f s sessionId)),
            nextOffset = length content\<rparr>" by simp
  then have 2: "read_until_eof (Suc fuel) parse f s sessionId (length content) 0 =
           Some (filter is_ua_msg (fst (getConversation parse f s sessionId)))"
    by (simp add: Let_def)
  from 1 2 show ?thesis by blast
qed


lemma sample_parse_cases:
  "sample_parse l \<noteq> None \<Longrightarrow>
   l = user_line \<or> l = assistant_line \<or> l = summary_line \<or> l = ''null''"
  by (simp add: sample_parse_def split: if_splits)

lemma sample_parse_trim:
  "\<forall>l. sample_parse l \<noteq> None \<longrightarrow>
       sample_parse (ltrim l) = sample_parse l \<and> sample_parse (rtrim l) = sample_parse l"
proof (intro allI impI)
  fix l assume "sample_parse l \<noteq> None"
  from sample_parse_cases[OF this]
  consider "l = user_line" | "l = assistant_line" | "l = summary_line" | "l = ''null''" by blast
  then have "ltrim l = l \<and> rtrim l = l"
  proof cases
    case 1
    have "ltrim user_line = user_line \<and> rtrim user_line = user_line" by code_simp
    with 1 show ?thesis by simp
  next
    case 2
    have "ltrim assistant_line = assistant_line \<and> rtrim assistant_line = assistant_line" by code_simp
    with 2 show ?thesis by simp
  next
    case 3
    have "ltrim summary_line = summary_line \<and> rtrim summary_line = summary_line" by code_simp
    with 3 show ?thesis by simp
  next
    case 4
    have "ltrim ''null'' = ''null'' \<and> rtrim ''null'' = ''null''" by code_simp
    with 4 show ?thesis by simp
  qed
  then show "sample_parse (ltrim l) = sample_parse l \<and> sample_parse (rtrim l) = sample_parse l"
    by simp
qed

lemma sample_parse_blank: "\<forall>l. blank l \<longrightarrow> sample_parse l = None"
proof (intro allI impI)
  fix l assume b: "blank l"
  have nb: "\<not> blank user_line \<and> \<not> blank assistant_line \<and> \<not> blank summary_line \<and> \<not> blank ''null''"
    by code_simp
  show "sample_parse l = None"
  proof (rule ccontr)
    assume "sample_parse l \<noteq> None"
    from sample_parse_cases[OF this] b nb show False by blast
  qed
qed

theorem tail_full_equivalence_witness:
  "CR \<notin> set tidy_content \<and> st_size (the (stat tidy_fs ''/c/projects/p/s.jsonl'')) = length tidy_content \<and>
   list_all (passes sample_parse) (rl_lines tidy_content) \<and>
   fst (getConversation sample_parse tidy_fs (new_storage ''/c'') ''s'')
     = [summary_msg, user_msg, assistant_msg] \<and>
   fst (getConversationStream sample_parse tidy_fs (new_storage ''/c'') ''s'' 0)
     = \<lparr>messages = [user_msg, assistant_msg], nextOffset = 61\<rparr> \<and>
   read_until_eof (Suc 0) sample_parse tidy_fs (new_storage ''/c'') ''s'' 61 0
     = Some [user_msg, assistant_msg]"
proof -
  have 1: "fst (findSessionFile tidy_fs (new_storage ''/c'') ''s'') = Some ''/c/projects/p/s.jsonl''"
    by code_simp
  have 2: "stat tidy_fs ''/c/projects/p/s.jsonl'' = Some \<lparr>st_size = 61, st_mtimeMs = 0\<rparr>"
    by (simp add: tidy_fs_def one_file_fs_def)
  have 3: "readFile tidy_fs ''/c/projects/p/s.jsonl'' = Some tidy_content"
    by (simp add: tidy_fs_def one_file_fs_def)
  have 4: "st_size \<lparr>st_size = 61, st_mtimeMs = 0\<rparr> = length tidy_content" by code_simp
  have 5: "CR \<notin> set tidy_content" by code_simp
  have 6: "list_all (passes sample_parse) (rl_lines tidy_content)" by code_simp
  have 7: "fst (getConversation sample_parse tidy_fs (new_storage ''/c'') ''s'')
     = [summary_msg, user_msg, assistant_msg]" by code_simp
  have 8: "filter is_ua_msg [summary_msg, user_msg, assistant_msg] = [user_msg, assistant_msg]"
    by code_simp
  have 9: "length tidy_content = 61" by code_simp
  from tail_full_equivalence[OF 1 _ 2 3 4 5 6 sample_parse_trim sample_parse_blank, of 0]
       2 4 5 6 7 8 9
  show ?thesis by simp
qed

text \<open>
  The claim as first stated fails on a file with a line that does not parse: the full
  reader skips the line and returns the user record after it, while the stream reader
  stops before the line at every call, returns nothing and never reaches the end of the
  file. It fails as well on the file with a lone CR: the stream reader sees two lines and
  returns two user records, the full reader sees one line that does not parse.
\<close>

theorem tail_full_equivalence_counterexample:
  "filter is_ua_msg (fst (getConversation sample_parse broken_fs (new_storage ''/c'') ''s'')) = [user_msg] \<and>
   fst (getConversationStream sample_parse broken_fs (new_storage ''/c'') ''s'' 0)
     = \<lparr>messages = [], nextOffset = 0\<rparr> \<and>
   read_until_eof 50 sample_parse broken_fs (new_storage ''/c'') ''s'' 21 0 = None \<and>
   filter is_ua_msg (fst (getConversation sample_parse cr_fs (new_storage ''/c'') ''s'')) = [] \<and>
   read_until_eof 1 sample_parse cr_fs (new_storage ''/c'') ''s'' 32 0 = Some [user_msg, user_msg]"
  by code_simp


end
